theory Spec2Isabelle
  imports Complex_Main "HOL-Library.Word"
begin

section \<open>Actor-critic training for CartPole: a model of the notebook\<close>

text \<open>
  The notebook computes on TensorFlow tensors. A rank-1 tensor is a list and a
  \<open>tf.int32\<close> value is a 32-bit word read as a signed integer. A \<open>tf.float32\<close> value
  is the real number it denotes. In the return calculator every operation rounds its
  result to float32, as the processor does; the loss and the network are taken over the
  reals.
\<close>

subsection \<open>Arithmetic in float32\<close>

text \<open>
  A float32 number is \<open>m * 2^e\<close> with an integer \<open>m\<close> of at most 24 bits. \<open>ilog2 x\<close>
  is the exponent of the leading bit of \<open>x > 0\<close>, and \<open>float32 x\<close> is the float32
  number nearest to \<open>x\<close>, a tie going to the even significand. The exponent is not
  bounded here: overflow to infinity, subnormal numbers and flushing to zero are outside
  the model. \<open>in_range32 x\<close> keeps \<open>x\<close> well inside the range of normal numbers, where
  float32 does what \<open>float32\<close> says.
\<close>

function ilog2 :: "real \<Rightarrow> int" where
  "ilog2 x = (if x \<le> 0 then 0
              else if x < 1 then ilog2 (2 * x) - 1
              else if 2 \<le> x then ilog2 (x / 2) + 1
              else 0)"
  by pat_completeness auto
termination
proof (relation "measure (\<lambda>x. nat \<bar>\<lfloor>log 2 x\<rfloor>\<bar>)")
  show "wf (measure (\<lambda>x. nat \<bar>\<lfloor>log 2 x\<rfloor>\<bar>))" by simp
next
  fix x :: real
  assume "\<not> x \<le> 0" "x < 1"
  then have x: "0 < x" "x < 1" by simp_all
  have "log 2 (2 * x) = 1 + log 2 x" using x by (simp add: log_mult)
  then have f: "\<lfloor>log 2 (2 * x)\<rfloor> = 1 + \<lfloor>log 2 x\<rfloor>" by simp
  have "log 2 x < 0" using x by simp
  then have "\<lfloor>log 2 x\<rfloor> \<le> - 1" by linarith
  then have "nat \<bar>1 + \<lfloor>log 2 x\<rfloor>\<bar> < nat \<bar>\<lfloor>log 2 x\<rfloor>\<bar>" by linarith
  then show "(2 * x, x) \<in> measure (\<lambda>x. nat \<bar>\<lfloor>log 2 x\<rfloor>\<bar>)"
    unfolding in_measure f .
next
  fix x :: real
  assume "\<not> x \<le> 0" "\<not> x < 1" "2 \<le> x"
  then have x: "2 \<le> x" by simp
  have "log 2 (x / 2) = log 2 x - 1" using x by (simp add: log_divide)
  then have f: "\<lfloor>log 2 (x / 2)\<rfloor> = \<lfloor>log 2 x\<rfloor> - 1" by simp
  have "1 \<le> log 2 x" using x by (simp add: le_log_iff)
  then have "1 \<le> \<lfloor>log 2 x\<rfloor>" by linarith
  then have "nat \<bar>\<lfloor>log 2 x\<rfloor> - 1\<bar> < nat \<bar>\<lfloor>log 2 x\<rfloor>\<bar>" by linarith
  then show "(x / 2, x) \<in> measure (\<lambda>x. nat \<bar>\<lfloor>log 2 x\<rfloor>\<bar>)"
    unfolding in_measure f .
qed

declare ilog2.simps [simp del]

definition round_half_even :: "real \<Rightarrow> int" where
  "round_half_even x =
     (let f = \<lfloor>x\<rfloor>; d = x - of_int f
      in if d < 1/2 then f else if 1/2 < d then f + 1 else if even f then f else f + 1)"

definition float32 :: "real \<Rightarrow> real" where
  "float32 x = (let e = ilog2 \<bar>x\<bar> - 23 in of_int (round_half_even (x / 2 powi e)) * 2 powi e)"

definition fadd :: "real \<Rightarrow> real \<Rightarrow> real" where
  "fadd x y = float32 (x + y)"

definition fsub :: "real \<Rightarrow> real \<Rightarrow> real" where
  "fsub x y = float32 (x - y)"

definition fmul :: "real \<Rightarrow> real \<Rightarrow> real" where
  "fmul x y = float32 (x * y)"

definition fdiv :: "real \<Rightarrow> real \<Rightarrow> real" where
  "fdiv x y = float32 (x / y)"

definition in_range32 :: "real \<Rightarrow> bool" where
  "in_range32 x = (x = 0 \<or> (1 / 2 ^ 100 \<le> \<bar>x\<bar> \<and> \<bar>x\<bar> \<le> 2 ^ 100))"

definition exact32 :: "real \<Rightarrow> bool" where
  \<comment> \<open>\<open>x\<close> is a float32 number: rounding leaves it as it is\<close>
  "exact32 x = (float32 x = x \<and> in_range32 x)"

definition u32 :: real where
  \<comment> \<open>the unit roundoff of float32, half its machine epsilon: the relative error of one rounding\<close>
  "u32 = 1 / 2 ^ 24"

subsection \<open>Numeric helpers of the framework\<close>

definition eps :: real where
  \<comment> \<open>\<open>np.finfo(np.float32).eps.item()\<close>, the float32 machine epsilon \<open>2^-23\<close>\<close>
  "eps = 1 / 2 ^ 23"

definition cast_float :: "32 word list \<Rightarrow> real list" where
  \<comment> \<open>\<open>tf.cast(_, dtype=tf.float32)\<close> of an int32 tensor: rounds above \<open>2^24\<close>\<close>
  "cast_float rs = map (\<lambda>r. float32 (real_of_int (sint r))) rs"

text \<open>
  \<open>tf.math.reduce_mean\<close> of a float32 tensor is the sum of the entries divided by their
  number, and \<open>tf.math.reduce_std\<close> is the square root of the mean of the squared
  deviations from the mean. The framework does not fix the order of the additions; here
  they run from left to right, which is the only order for up to two entries.
\<close>

definition reduce_mean32 :: "real list \<Rightarrow> real" where
  "reduce_mean32 xs = fdiv (foldl fadd 0 xs) (float32 (real (length xs)))"

definition reduce_std32 :: "real list \<Rightarrow> real" where
  "reduce_std32 xs =
     (let means = reduce_mean32 xs;
          squared_deviations = map (\<lambda>x. let diff = fsub x means in fmul diff diff) xs
      in float32 (sqrt (reduce_mean32 squared_deviations)))"

subsection \<open>Expected returns\<close>

text \<open>
  The loop of \<open>get_expected_return\<close>: \<open>rewards\<close> is the reversed reward tensor, cast
  to float32, \<open>returns\<close> the tensor array of size \<open>n\<close>, written at index \<open>i\<close>. The
  product and the sum are rounded one after the other.
\<close>

function return_loop ::
  "real \<Rightarrow> real list \<Rightarrow> nat \<Rightarrow> nat \<Rightarrow> real \<Rightarrow> real list \<Rightarrow> real list" where
  "return_loop gamma rewards n i discounted_sum returns =
     (if i < n then
        (let reward = rewards ! i;
             discounted_sum' = fadd reward (fmul gamma discounted_sum)
         in return_loop gamma rewards n (Suc i) discounted_sum' (returns[i := discounted_sum']))
      else returns)"
  by pat_completeness auto
termination
  by (relation "measure (\<lambda>(gamma, rewards, n, i, s, returns). n - i)") auto

declare return_loop.simps [simp del]

text \<open>
  \<open>gamma\<close> is a Python float; it becomes a float32 constant when it meets the float32
  tensor \<open>discounted_sum\<close>.
\<close>

definition get_expected_return :: "32 word list \<Rightarrow> real \<Rightarrow> bool \<Rightarrow> real list" where
  "get_expected_return rewards gamma standardize =
     (let n = length rewards;
          rewards' = cast_float (rev rewards);
          returns = rev (return_loop (float32 gamma) rewards' n 0 0 (replicate n 0))
      in if standardize
         then map (\<lambda>g. fdiv (fsub g (reduce_mean32 returns)) (fadd (reduce_std32 returns) eps))
                returns
         else returns)"

text \<open>
  What the loop computes, read off its body: \<open>scan gamma rewards k\<close> is the running sum
  after \<open>k\<close> passes over the reversed rewards.
\<close>

primrec scan :: "real \<Rightarrow> real list \<Rightarrow> nat \<Rightarrow> real" where
  "scan gamma rewards 0 = 0"
| "scan gamma rewards (Suc k) = fadd (rewards ! k) (fmul gamma (scan gamma rewards k))"

text \<open>
  The quantities the returns are meant to be, over the reals: the discounted sum of the
  rewards from step \<open>t\<close> on, the same sum of the absolute values, which is the scale of
  the rounding errors, and the closed form for \<open>k\<close> rewards of one value \<open>r\<close>.
\<close>

definition discounted_sum_from :: "real \<Rightarrow> 32 word list \<Rightarrow> nat \<Rightarrow> real" where
  "discounted_sum_from gamma rewards t =
     (\<Sum>k = t..<length rewards. gamma ^ (k - t) * real_of_int (sint (rewards ! k)))"

definition discounted_abs_sum_from :: "real \<Rightarrow> 32 word list \<Rightarrow> nat \<Rightarrow> real" where
  "discounted_abs_sum_from gamma rewards t =
     (\<Sum>k = t..<length rewards. \<bar>gamma\<bar> ^ (k - t) * \<bar>real_of_int (sint (rewards ! k))\<bar>)"

definition constant_return :: "real \<Rightarrow> real \<Rightarrow> nat \<Rightarrow> real" where
  "constant_return r gamma k = r * (1 - gamma ^ k) / (1 - gamma)"

subsection \<open>Mean and standard deviation over the reals\<close>

text \<open>
  The mean and the population standard deviation of a list of reals, without rounding:
  the yardstick for the standardised returns. \<open>reduce_mean32\<close> and \<open>reduce_std32\<close>
  above are what the return calculator computes. The loss, which is taken over the reals,
  uses \<open>reduce_mean\<close> for the mean over the last axis.
\<close>

definition reduce_mean :: "real list \<Rightarrow> real" where
  "reduce_mean xs = sum_list xs / real (length xs)"




subsection \<open>Rank-2 tensors and the loss\<close>

text \<open>
  \<open>train_step\<close> hands \<open>compute_loss\<close> tensors of shape \<open>[n, 1]\<close>. A rank-2 tensor is
  the list of its rows. A binary operation broadcasts an axis of length 1 against the
  other operand and is refused on any other disagreement of shapes. A float result that
  would be an infinity or a NaN has no counterpart among the reals and is reported as
  \<open>Not_finite\<close>.
\<close>

datatype tf_error = Incompatible_shapes | Index_out_of_range | Not_finite

definition expand_dims :: "real list \<Rightarrow> real list list" where
  \<comment> \<open>\<open>tf.expand_dims(x, 1)\<close> of a rank-1 tensor\<close>
  "expand_dims xs = map (\<lambda>x. [x]) xs"

definition broadcast_axis :: "'a list \<Rightarrow> 'b list \<Rightarrow> tf_error + ('a \<times> 'b) list" where
  "broadcast_axis xs ys =
     (if length xs = length ys then Inr (zip xs ys)
      else if length xs = 1 then Inr (zip (replicate (length ys) (hd xs)) ys)
      else if length ys = 1 then Inr (zip xs (replicate (length xs) (hd ys)))
      else Inl Incompatible_shapes)"

fun collect :: "(tf_error + 'a) list \<Rightarrow> tf_error + 'a list" where
  "collect [] = Inr []"
| "collect (Inl e # rs) = Inl e"
| "collect (Inr x # rs) = (case collect rs of Inl e \<Rightarrow> Inl e | Inr xs \<Rightarrow> Inr (x # xs))"

definition binop ::
  "(real \<Rightarrow> real \<Rightarrow> real) \<Rightarrow> real list list \<Rightarrow> real list list \<Rightarrow> tf_error + real list list" where
  "binop f a b =
     (case broadcast_axis a b of
        Inl e \<Rightarrow> Inl e
      | Inr rows \<Rightarrow>
          collect (map (\<lambda>(r, s). case broadcast_axis r s of
                                   Inl e \<Rightarrow> Inl e
                                 | Inr cells \<Rightarrow> Inr (map (\<lambda>(x, y). f x y) cells)) rows))"

definition tf_log :: "real list list \<Rightarrow> tf_error + real list list" where
  \<comment> \<open>\<open>tf.math.log\<close>: minus infinity at 0 and NaN below\<close>
  "tf_log a = (if \<forall>row\<in>set a. \<forall>x\<in>set row. 0 < x then Inr (map (map ln) a) else Inl Not_finite)"

definition reduce_sum :: "real list list \<Rightarrow> real" where
  "reduce_sum a = sum_list (map sum_list a)"

definition huber :: "real \<Rightarrow> real list list \<Rightarrow> real list list \<Rightarrow> tf_error + real list" where
  \<comment> \<open>\<open>tf.keras.losses.huber\<close>: the loss of each sample, the mean over its last axis\<close>
  "huber delta y_true y_pred =
     (case binop (-) y_pred y_true of
        Inl e \<Rightarrow> Inl e
      | Inr error \<Rightarrow>
          Inr (map (\<lambda>row. reduce_mean
                     (map (\<lambda>e. if \<bar>e\<bar> \<le> delta then 1/2 * e\<^sup>2
                                else delta * \<bar>e\<bar> - 1/2 * delta\<^sup>2) row)) error))"

definition huber_loss :: "real list list \<Rightarrow> real list list \<Rightarrow> tf_error + real" where
  \<comment> \<open>\<open>tf.keras.losses.Huber(reduction=SUM)\<close>, with its default \<open>delta = 1.0\<close>\<close>
  "huber_loss y_true y_pred =
     (case huber 1 y_true y_pred of Inl e \<Rightarrow> Inl e | Inr losses \<Rightarrow> Inr (sum_list losses))"

definition compute_loss ::
  "real list list \<Rightarrow> real list list \<Rightarrow> real list list \<Rightarrow> tf_error + real" where
  "compute_loss action_probs values returns =
     (case binop (-) returns values of
        Inl e \<Rightarrow> Inl e
      | Inr advantage \<Rightarrow>
     (case tf_log action_probs of
        Inl e \<Rightarrow> Inl e
      | Inr action_log_probs \<Rightarrow>
     (case binop (*) action_log_probs advantage of
        Inl e \<Rightarrow> Inl e
      | Inr weighted \<Rightarrow>
     (let actor_loss = - reduce_sum weighted in
      case huber_loss values returns of
        Inl e \<Rightarrow> Inl e
      | Inr critic_loss \<Rightarrow> Inr (actor_loss + critic_loss)))))"

subsection \<open>Collecting one episode\<close>

text \<open>
  The collaborators of \<open>run_episode\<close> are taken as they are: the network \<open>model\<close>
  maps an observation to the action logits and the value estimate, \<open>categorical\<close> is
  \<open>tf.random.categorical\<close> drawing one class index from the generator state, and
  \<open>gym_step\<close> is \<open>env.step\<close> of the simulator, acting on its internal state.
\<close>

record ('env, 'rng) system =
  model :: "real list \<Rightarrow> real list \<times> real"
  categorical :: "'rng \<Rightarrow> real list \<Rightarrow> nat \<times> 'rng"
  gym_step :: "'env \<Rightarrow> nat \<Rightarrow> (real list \<times> real \<times> bool) \<times> 'env"

definition softmax :: "real list \<Rightarrow> real list" where
  \<comment> \<open>\<open>tf.nn.softmax\<close> of one row of logits\<close>
  "softmax logits = map (\<lambda>l. exp l / sum_list (map exp logits)) logits"

definition np_int32 :: "real \<Rightarrow> 32 word" where
  \<comment> \<open>\<open>np.array(reward, np.int32)\<close>: the fraction is dropped\<close>
  "np_int32 r = word_of_int (if 0 \<le> r then \<lfloor>r\<rfloor> else \<lceil>r\<rceil>)"

definition env_step_convert :: "real list \<times> real \<times> bool \<Rightarrow> real list \<times> 32 word \<times> 32 word" where
  \<comment> \<open>the conversions of \<open>env_step\<close>: state to float32, reward and done flag to int32\<close>
  "env_step_convert out =
     (case out of (state, reward, done) \<Rightarrow> (state, np_int32 reward, if done then 1 else 0))"

definition env_step ::
  "('env \<Rightarrow> nat \<Rightarrow> (real list \<times> real \<times> bool) \<times> 'env) \<Rightarrow> 'env \<Rightarrow> nat \<Rightarrow>
   (real list \<times> 32 word \<times> 32 word) \<times> 'env" where
  "env_step step env action = (case step env action of (out, env') \<Rightarrow> (env_step_convert out, env'))"

definition ta_write :: "'a::zero list \<Rightarrow> nat \<Rightarrow> 'a \<Rightarrow> 'a list" where
  \<comment> \<open>\<open>TensorArray.write\<close> on an array of dynamic size: writing at the size appends\<close>
  "ta_write ta i v =
     (if i < length ta then ta[i := v] else ta @ replicate (i - length ta) 0 @ [v])"

record ('env, 'rng) episode_state =
  cur_state :: "real list"
  cur_env :: 'env
  cur_rng :: 'rng
  ta_action_probs :: "real list"
  ta_values :: "real list"
  ta_rewards :: "32 word list"

text \<open>
  One pass through the body of the loop at index \<open>t\<close>: the result is the done flag, cast
  to \<open>bool\<close>, with the variables after the pass. Indexing the probabilities with a class
  index outside the row is an error.
\<close>

definition episode_body ::
  "('env, 'rng) system \<Rightarrow> nat \<Rightarrow> ('env, 'rng) episode_state \<Rightarrow>
   tf_error + bool \<times> ('env, 'rng) episode_state" where
  "episode_body S t c =
     (case model S (cur_state c) of (action_logits_t, value) \<Rightarrow>
      case categorical S (cur_rng c) action_logits_t of (action, rng') \<Rightarrow>
      let action_probs_t = softmax action_logits_t;
          values' = ta_write (ta_values c) t value
      in if action < length action_probs_t then
           (let action_probs' = ta_write (ta_action_probs c) t (action_probs_t ! action)
            in case env_step (gym_step S) (cur_env c) action of ((state', reward, done), env') \<Rightarrow>
               let rewards' = ta_write (ta_rewards c) t reward
               in Inr (done \<noteq> 0,
                       \<lparr>cur_state = state', cur_env = env', cur_rng = rng',
                        ta_action_probs = action_probs', ta_values = values',
                        ta_rewards = rewards'\<rparr>))
         else Inl Index_out_of_range)"

function episode_loop ::
  "('env, 'rng) system \<Rightarrow> nat \<Rightarrow> nat \<Rightarrow> ('env, 'rng) episode_state \<Rightarrow>
   tf_error + ('env, 'rng) episode_state" where
  "episode_loop S max_steps t c =
     (if t < max_steps then
        (case episode_body S t c of
           Inl e \<Rightarrow> Inl e
         | Inr (done, c') \<Rightarrow> if done then Inr c' else episode_loop S max_steps (Suc t) c')
      else Inr c)"
  by pat_completeness auto
termination
  by (relation "measure (\<lambda>(S, max_steps, t, c). max_steps - t)") auto

declare episode_loop.simps [simp del]

text \<open>The empty tensor arrays and the initial observation, simulator and generator.\<close>

definition initial_episode_state :: "real list \<Rightarrow> 'env \<Rightarrow> 'rng \<Rightarrow> ('env, 'rng) episode_state" where
  "initial_episode_state initial_state env rng =
     \<lparr>cur_state = initial_state, cur_env = env, cur_rng = rng,
      ta_action_probs = [], ta_values = [], ta_rewards = []\<rparr>"

definition run_episode ::
  "('env, 'rng) system \<Rightarrow> real list \<Rightarrow> nat \<Rightarrow> 'env \<Rightarrow> 'rng \<Rightarrow>
   tf_error + (real list \<times> real list \<times> 32 word list) \<times> 'env \<times> 'rng" where
  "run_episode S initial_state max_steps env rng =
     (case episode_loop S max_steps 0 (initial_episode_state initial_state env rng) of
        Inl e \<Rightarrow> Inl e
      | Inr c \<Rightarrow> Inr ((ta_action_probs c, ta_values c, ta_rewards c), cur_env c, cur_rng c))"

text \<open>
  The loop without its \<open>break\<close>: \<open>unbroken S k c\<close> is the state after \<open>k\<close> passes from
  \<open>c\<close>, and \<open>done_at S c k\<close> tells whether the pass at index \<open>k\<close> reports done.
\<close>

fun unbroken ::
  "('env, 'rng) system \<Rightarrow> nat \<Rightarrow> ('env, 'rng) episode_state \<Rightarrow>
   tf_error + ('env, 'rng) episode_state" where
  "unbroken S 0 c = Inr c"
| "unbroken S (Suc k) c =
     (case unbroken S k c of
        Inl e \<Rightarrow> Inl e
      | Inr c' \<Rightarrow> (case episode_body S k c' of Inl e \<Rightarrow> Inl e | Inr (done, c'') \<Rightarrow> Inr c''))"

definition done_at :: "('env, 'rng) system \<Rightarrow> ('env, 'rng) episode_state \<Rightarrow> nat \<Rightarrow> bool" where
  "done_at S c k =
     (case unbroken S k c of
        Inl e \<Rightarrow> False
      | Inr c' \<Rightarrow> (case episode_body S k c' of Inl e \<Rightarrow> False | Inr (done, c'') \<Rightarrow> done))"

text \<open>
  \<open>tf.random.categorical\<close> returns an index of a class among the logits it is given;
  \<open>sampler_in_range\<close> says so of the sampler of a system.
\<close>

definition sampler_in_range :: "('env, 'rng) system \<Rightarrow> bool" where
  "sampler_in_range S =
     (\<forall>rng s. fst (categorical S rng (fst (model S s))) < length (fst (model S s)))"

text \<open>The loop invariant: at index \<open>t\<close> each tensor array holds \<open>t\<close> entries.\<close>

definition arrays_filled :: "nat \<Rightarrow> ('env, 'rng) episode_state \<Rightarrow> bool" where
  "arrays_filled t c =
     (length (ta_action_probs c) = t \<and> length (ta_values c) = t \<and> length (ta_rewards c) = t)"

text \<open>Every recorded action probability is positive.\<close>

definition probs_positive :: "('env, 'rng) episode_state \<Rightarrow> bool" where
  "probs_positive c = (\<forall>p\<in>set (ta_action_probs c). 0 < p)"

text \<open>
  A small system to run the definitions on: two actions of equal logits, a sampler that
  alternates between them, and a simulator that counts its steps, pays reward 1 and
  reports done from its \<open>d\<close>-th step on.
\<close>

definition counting_system :: "nat \<Rightarrow> (nat, nat) system" where
  "counting_system d =
     \<lparr>model = (\<lambda>s. ([0, 0], 0)),
      categorical = (\<lambda>rng ls. (rng mod 2, Suc rng)),
      gym_step = (\<lambda>env a. (([real env], 1, d \<le> Suc env), Suc env))\<rparr>"

subsection \<open>The episode as a relation\<close>

text \<open>
  The sampling and the simulator draw on random generators. Without a seed they are
  relations: \<open>may_draw\<close> and \<open>may_step\<close> tell which outcomes a call may have. The
  loop of \<open>run_episode\<close> over such collaborators is the relation \<open>episode_runs\<close>
  between the variables at index \<open>t\<close> and the variables when the loop is left.
\<close>

record ('env, 'rng) chance_system =
  network :: "real list \<Rightarrow> real list \<times> real"
  may_draw :: "'rng \<Rightarrow> real list \<Rightarrow> nat \<times> 'rng \<Rightarrow> bool"
  may_step :: "'env \<Rightarrow> nat \<Rightarrow> (real list \<times> real \<times> bool) \<times> 'env \<Rightarrow> bool"

inductive body_runs ::
  "('env, 'rng) chance_system \<Rightarrow> nat \<Rightarrow> ('env, 'rng) episode_state \<Rightarrow>
   bool \<times> ('env, 'rng) episode_state \<Rightarrow> bool"
  for R :: "('env, 'rng) chance_system" where
  pass:
    "network R (cur_state c) = (action_logits_t, value) \<Longrightarrow>
     may_draw R (cur_rng c) action_logits_t (action, rng') \<Longrightarrow>
     action < length (softmax action_logits_t) \<Longrightarrow>
     may_step R (cur_env c) action (out, env') \<Longrightarrow>
     env_step_convert out = (state', reward, done) \<Longrightarrow>
     body_runs R t c
       (done \<noteq> 0,
        \<lparr>cur_state = state', cur_env = env', cur_rng = rng',
         ta_action_probs = ta_write (ta_action_probs c) t (softmax action_logits_t ! action),
         ta_values = ta_write (ta_values c) t value,
         ta_rewards = ta_write (ta_rewards c) t reward\<rparr>)"

inductive episode_runs ::
  "('env, 'rng) chance_system \<Rightarrow> nat \<Rightarrow> nat \<Rightarrow> ('env, 'rng) episode_state \<Rightarrow>
   ('env, 'rng) episode_state \<Rightarrow> bool"
  for R :: "('env, 'rng) chance_system" and max_steps :: nat where
  cap: "\<not> t < max_steps \<Longrightarrow> episode_runs R max_steps t c c"
| break: "t < max_steps \<Longrightarrow> body_runs R t c (True, c') \<Longrightarrow> episode_runs R max_steps t c c'"
| continue:
    "t < max_steps \<Longrightarrow> body_runs R t c (False, c') \<Longrightarrow>
     episode_runs R max_steps (Suc t) c' c'' \<Longrightarrow> episode_runs R max_steps t c c''"

code_pred body_runs .

code_pred episode_runs .

text \<open>The traces \<open>run_episode\<close> may return.\<close>

definition episode_trace ::
  "('env, 'rng) chance_system \<Rightarrow> real list \<Rightarrow> nat \<Rightarrow> 'env \<Rightarrow> 'rng \<Rightarrow>
   real list \<times> real list \<times> 32 word list \<Rightarrow> bool" where
  "episode_trace R initial_state max_steps env rng trace =
     (\<exists>c. episode_runs R max_steps 0 (initial_episode_state initial_state env rng) c \<and>
          trace = (ta_action_probs c, ta_values c, ta_rewards c))"

text \<open>
  A seed controls the sampling and the simulator when a generator state and a simulator
  state leave each call one outcome.
\<close>

definition seeded :: "('env, 'rng) chance_system \<Rightarrow> bool" where
  "seeded R =
     ((\<forall>rng logits o1 o2. may_draw R rng logits o1 \<longrightarrow> may_draw R rng logits o2 \<longrightarrow> o1 = o2) \<and>
      (\<forall>env action o1 o2. may_step R env action o1 \<longrightarrow> may_step R env action o2 \<longrightarrow> o1 = o2))"

text \<open>Collaborators that are functions, seen as relations.\<close>

definition as_chance :: "('env, 'rng) system \<Rightarrow> ('env, 'rng) chance_system" where
  "as_chance S =
     \<lparr>network = model S,
      may_draw = (\<lambda>rng logits out. out = categorical S rng logits),
      may_step = (\<lambda>env action out. out = gym_step S env action)\<rparr>"

subsection \<open>The training step\<close>

definition standardize_default :: bool where
  \<comment> \<open>the default of the parameter \<open>standardize\<close> of \<open>get_expected_return\<close>\<close>
  "standardize_default = True"

text \<open>
  What the block under the gradient tape computes: the three \<open>[n, 1]\<close> tensors and the
  loss. The gradient of the loss and the update of the optimizer belong to the framework;
  \<open>update\<close> stands for both, as a function of the trainable state and of the tape.
\<close>

record tape =
  tape_action_probs :: "real list list"
  tape_values :: "real list list"
  tape_returns :: "real list list"
  tape_loss :: real

definition train_step ::
  "('m \<Rightarrow> real list \<Rightarrow> real list \<times> real) \<Rightarrow> ('m \<Rightarrow> tape \<Rightarrow> 'm) \<Rightarrow> ('env, 'rng) system \<Rightarrow>
   real list \<Rightarrow> 'm \<Rightarrow> real \<Rightarrow> nat \<Rightarrow> 'env \<Rightarrow> 'rng \<Rightarrow>
   tf_error + (32 word \<times> 'm) \<times> 'env \<times> 'rng" where
  "train_step forward update S initial_state m gamma max_steps_per_episode env rng =
     (case run_episode (S\<lparr>model := forward m\<rparr>) initial_state max_steps_per_episode env rng of
        Inl e \<Rightarrow> Inl e
      | Inr ((action_probs, values, rewards), env', rng') \<Rightarrow>
          (let returns = get_expected_return rewards gamma standardize_default;
               action_probs' = expand_dims action_probs;
               values' = expand_dims values;
               returns' = expand_dims returns
           in case compute_loss action_probs' values' returns' of
                Inl e \<Rightarrow> Inl e
              | Inr loss \<Rightarrow>
                  (let m' = update m \<lparr>tape_action_probs = action_probs', tape_values = values',
                                     tape_returns = returns', tape_loss = loss\<rparr>;
                       episode_reward = sum_list rewards
                   in Inr ((episode_reward, m'), env', rng'))))"

subsection \<open>The training loop\<close>




datatype py_error = StatisticsError

definition deque_append :: "nat \<Rightarrow> 'a list \<Rightarrow> 'a \<Rightarrow> 'a list" where
  \<comment> \<open>\<open>append\<close> of a \<open>collections.deque\<close> with \<open>maxlen\<close>: the item goes to the right end,
     then the leftmost item is dropped if the deque is over its capacity\<close>
  "deque_append maxlen d x = (let d' = d @ [x] in if maxlen < length d' then tl d' else d')"

definition statistics_mean :: "int list \<Rightarrow> py_error + real" where
  \<comment> \<open>\<open>statistics.mean\<close>: the exact mean of the data, refused on no data\<close>
  "statistics_mean d =
     (if d = [] then Inl StatisticsError else Inr (real_of_int (sum_list d) / real (length d)))"

text \<open>
  The variables of the loop. \<open>world\<close> is everything \<open>train_step\<close> acts on: simulator,
  generator, network and optimizer. One pass resets the simulator and runs \<open>train_step\<close>;
  both together are the function \<open>episode\<close>, from the world to the episode reward and the
  world after it.
\<close>

record 'w loop_state =
  world :: 'w
  episodes_reward :: "int list"
  running_reward :: real

text \<open>
  The loop from index \<open>i\<close>. Its result tells whether it was left by \<open>break\<close>, how many
  passes had run by then, and the variables.
\<close>

function training_loop ::
  "('w \<Rightarrow> int \<times> 'w) \<Rightarrow> nat \<Rightarrow> nat \<Rightarrow> int \<Rightarrow> nat \<Rightarrow> 'w loop_state \<Rightarrow>
   py_error + bool \<times> nat \<times> 'w loop_state" where
  "training_loop episode min_episodes max_eps threshold i s =
     (if i < max_eps then
        (case episode (world s) of (episode_reward, w') \<Rightarrow>
           let d = deque_append min_episodes (episodes_reward s) episode_reward
           in case statistics_mean d of
                Inl e \<Rightarrow> Inl e
              | Inr mean \<Rightarrow>
                  (let s' = \<lparr>world = w', episodes_reward = d, running_reward = mean\<rparr>
                   in if mean > real_of_int threshold \<and> i \<ge> min_episodes then Inr (True, Suc i, s')
                      else training_loop episode min_episodes max_eps threshold (Suc i) s'))
      else Inr (False, i, s))"
  by pat_completeness auto
termination
  by (relation "measure (\<lambda>(episode, min_episodes, max_eps, threshold, i, s). max_eps - i)") auto

declare training_loop.simps [simp del]

text \<open>
  The episodes without the \<open>break\<close>: the world after \<open>k\<close> episodes, the reward of the
  episode of index \<open>k\<close>, the most recent \<open>n\<close> of the first \<open>k\<close> rewards, and the test of
  the \<open>break\<close> in the pass of index \<open>i\<close>.
\<close>

fun world_after :: "('w \<Rightarrow> int \<times> 'w) \<Rightarrow> 'w \<Rightarrow> nat \<Rightarrow> 'w" where
  "world_after episode w 0 = w"
| "world_after episode w (Suc k) = snd (episode (world_after episode w k))"

definition reward_of :: "('w \<Rightarrow> int \<times> 'w) \<Rightarrow> 'w \<Rightarrow> nat \<Rightarrow> int" where
  "reward_of episode w k = fst (episode (world_after episode w k))"

definition recent_rewards :: "('w \<Rightarrow> int \<times> 'w) \<Rightarrow> 'w \<Rightarrow> nat \<Rightarrow> nat \<Rightarrow> int list" where
  "recent_rewards episode w n k = drop (k - n) (map (reward_of episode w) [0..<k])"

definition break_test :: "('w \<Rightarrow> int \<times> 'w) \<Rightarrow> 'w \<Rightarrow> nat \<Rightarrow> int \<Rightarrow> nat \<Rightarrow> bool" where
  "break_test episode w n threshold i =
     (case statistics_mean (recent_rewards episode w n (Suc i)) of
        Inl e \<Rightarrow> False
      | Inr mean \<Rightarrow> mean > real_of_int threshold \<and> i \<ge> n)"

text \<open>The variables before the first pass: an empty window and \<open>running_reward = 0\<close>.\<close>

definition initial_loop_state :: "'w \<Rightarrow> 'w loop_state" where
  "initial_loop_state w = \<lparr>world = w, episodes_reward = [], running_reward = 0\<rparr>"

text \<open>
  The loop invariant: before the pass of index \<open>k\<close> the world is the one after \<open>k\<close>
  episodes, the window holds the most recent \<open>n\<close> of their rewards, and after a first
  pass \<open>running_reward\<close> is the mean of the window.
\<close>

definition loop_state_at :: "('w \<Rightarrow> int \<times> 'w) \<Rightarrow> 'w \<Rightarrow> nat \<Rightarrow> nat \<Rightarrow> 'w loop_state \<Rightarrow> bool" where
  "loop_state_at episode w n k s =
     (world s = world_after episode w k \<and> episodes_reward s = recent_rewards episode w n k \<and>
      (0 < k \<longrightarrow> statistics_mean (episodes_reward s) = Inr (running_reward s)))"


definition counting_episode :: "nat \<Rightarrow> int \<times> nat" where
  "counting_episode w = (int w, Suc w)"

section \<open>Properties\<close>

subsection \<open>Rounding to float32\<close>

lemma powi2_less_cancel: "(2::real) powi a < 2 powi b \<Longrightarrow> a < b"
proof (rule ccontr)
  assume lt: "(2::real) powi a < 2 powi b" and "\<not> a < b"
  then have "b \<le> a" by simp
  then have "(2::real) powi b \<le> 2 powi a" by (intro power_int_increasing) simp_all
  with lt show False by simp
qed

lemma powi2_half: "(2::real) powi (e - 1) = 2 powi e / 2"
  by (simp add: power_int_diff)

lemma powi2_double: "(2::real) powi (e + 1) = 2 * 2 powi e"
  by (simp add: power_int_add)

lemma ilog2_bounds:
  "0 < x \<Longrightarrow> 2 powi (ilog2 x) \<le> x \<and> x < 2 powi (ilog2 x + 1)"
proof (induction x rule: ilog2.induct)
  case (1 x)
  show ?case
  proof (cases "x < 1")
    case True
    have e: "ilog2 x = ilog2 (2 * x) - 1"
      using True "1.prems" by (subst ilog2.simps) simp
    have "2 powi (ilog2 (2 * x)) \<le> 2 * x \<and> 2 * x < 2 powi (ilog2 (2 * x) + 1)"
      using "1.IH"(1) True "1.prems" by simp
    then show ?thesis unfolding e by (simp add: powi2_half powi2_double)
  next
    case False
    show ?thesis
    proof (cases "2 \<le> x")
      case True
      have e: "ilog2 x = ilog2 (x / 2) + 1"
        using True by (subst ilog2.simps) simp
      have "2 powi (ilog2 (x / 2)) \<le> x / 2 \<and> x / 2 < 2 powi (ilog2 (x / 2) + 1)"
        using "1.IH"(2) True False "1.prems" by simp
      moreover have "(2::real) powi (ilog2 (x / 2) + 1 + 1) = 4 * 2 powi (ilog2 (x / 2))"
        by (simp add: power_int_add)
      moreover have "(2::real) powi (ilog2 (x / 2) + 1) = 2 * 2 powi (ilog2 (x / 2))"
        by (rule powi2_double)
      ultimately have "2 powi (ilog2 (x / 2) + 1) \<le> x \<and> x < 2 powi (ilog2 (x / 2) + 1 + 1)"
        by simp
      then show ?thesis unfolding e .
    next
      case False
      then have "ilog2 x = 0" using \<open>\<not> x < 1\<close> "1.prems" by (subst ilog2.simps) simp
      then show ?thesis using False \<open>\<not> x < 1\<close> by simp
    qed
  qed
qed

lemma ilog2_eqI:
  assumes "2 powi k \<le> x" "x < 2 powi (k + 1)"
  shows "ilog2 x = k"
proof -
  have pos: "0 < x" using assms(1) zero_less_power_int [of "2::real" k] by linarith
  note b = ilog2_bounds [OF pos]
  have "(2::real) powi k < 2 powi (ilog2 x + 1)" using assms(1) b by linarith
  then have "k < ilog2 x + 1" by (rule powi2_less_cancel)
  moreover have "(2::real) powi (ilog2 x) < 2 powi (k + 1)" using assms(2) b by linarith
  then have "ilog2 x < k + 1" by (rule powi2_less_cancel)
  ultimately show ?thesis by simp
qed


lemma round_half_even_of_int: "round_half_even (of_int k) = k"
  by (simp add: round_half_even_def)


lemma float32_0: "float32 0 = 0"
  by (simp add: float32_def round_half_even_def)



lemma float32_exact:
  assumes "\<bar>m\<bar> < 2 ^ 24"
  shows "float32 (of_int m * 2 powi e) = of_int m * 2 powi e"
proof (cases "m = 0")
  case True
  then show ?thesis by (simp add: float32_0)
next
  case False
  let ?x = "of_int m * (2::real) powi e"
  let ?k = "ilog2 \<bar>?x\<bar>"
  have ax: "\<bar>?x\<bar> = of_int \<bar>m\<bar> * 2 powi e" by (simp add: abs_mult)
  have pos: "0 < \<bar>?x\<bar>" using False by simp
  have "of_int \<bar>m\<bar> < (2::real) ^ 24" using assms
    by (metis of_int_less_iff of_int_numeral of_int_power)
  then have "\<bar>?x\<bar> < 2 ^ 24 * 2 powi e" unfolding ax by simp
  also have "\<dots> = 2 powi (e + 24)" by (simp add: power_int_add)
  finally have "2 powi ?k < (2::real) powi (e + 24)" using ilog2_bounds [OF pos] by linarith
  then have "?k < e + 24" by (rule powi2_less_cancel)
  then have le: "0 \<le> e - (?k - 23)" by simp
  define d where "d = nat (e - (?k - 23))"
  have "(2::real) powi e / 2 powi (?k - 23) = 2 powi (e - (?k - 23))"
    by (simp add: power_int_diff)
  also have "\<dots> = 2 ^ d" using le by (simp add: d_def power_int_def)
  finally have "of_int m * ((2::real) powi e / 2 powi (?k - 23)) = of_int m * 2 ^ d" by simp
  then have q: "?x / 2 powi (?k - 23) = of_int (m * 2 ^ d)" by simp
  have "round_half_even (?x / 2 powi (?k - 23)) = m * 2 ^ d"
    unfolding q by (rule round_half_even_of_int)
  then have "float32 ?x = of_int (m * 2 ^ d) * 2 powi (?k - 23)"
    by (simp add: float32_def Let_def)
  also have "\<dots> = ?x / 2 powi (?k - 23) * 2 powi (?k - 23)" unfolding q ..
  also have "\<dots> = ?x" by simp
  finally show ?thesis .
qed

lemma float32_of_int:
  assumes "\<bar>r\<bar> \<le> 2 ^ 24"
  shows "float32 (of_int r) = of_int r"
proof (cases "\<bar>r\<bar> < 2 ^ 24")
  case True
  then show ?thesis using float32_exact [of r 0] by simp
next
  case False
  then have "\<bar>r\<bar> = 2 ^ 24" using assms by simp
  then have "r = 2 ^ 24 \<or> r = - (2 ^ 24)" by linarith
  then show ?thesis
  proof
    assume "r = 2 ^ 24"
    then show ?thesis using float32_exact [of 1 24] by simp
  next
    assume "r = - (2 ^ 24)"
    then show ?thesis using float32_exact [of "-1" 24] by simp
  qed
qed

lemma float32_eval:
  assumes "2 powi k \<le> \<bar>x\<bar>" "\<bar>x\<bar> < 2 powi (k + 1)"
  shows "float32 x = of_int (round_half_even (x / 2 powi (k - 23))) * 2 powi (k - 23)"
  using ilog2_eqI [OF assms] by (simp add: float32_def Let_def)

lemma float32_numeral: "(numeral n :: int) \<le> 2 ^ 24 \<Longrightarrow> float32 (numeral n) = numeral n"
  using float32_of_int [of "numeral n"] by simp

lemma float32_1: "float32 1 = 1"
  using float32_of_int [of 1] by simp

lemma float32_half: "(numeral n :: int) < 2 ^ 24 \<Longrightarrow> float32 (numeral n / 2) = numeral n / 2"
  using float32_exact [of "numeral n" "- 1"] by simp

lemma float32_quarter: "(numeral n :: int) < 2 ^ 24 \<Longrightarrow> float32 (numeral n / 4) = numeral n / 4"
  using float32_exact [of "numeral n" "- 2"] by simp

lemma float32_half1: "float32 (1 / 2) = 1 / 2"
  using float32_exact [of 1 "- 1"] by simp


lemma float32_25165827_half: "float32 (25165827 / 2) = 12582914"
  by (subst float32_eval [where k = 23]) (simp_all add: round_half_even_def)

lemma get_expected_return_False:
  "get_expected_return rewards gamma False =
     rev (return_loop (float32 gamma) (cast_float (rev rewards)) (length rewards) 0 0
            (replicate (length rewards) 0))"
  by (simp add: get_expected_return_def Let_def)

lemmas f32 = fadd_def fmul_def float32_0 float32_1 float32_numeral float32_half float32_quarter
  float32_half1

lemma round_half_even_error: "\<bar>of_int (round_half_even y) - y\<bar> \<le> 1 / 2"
proof -
  have "of_int \<lfloor>y\<rfloor> \<le> y" "y < of_int \<lfloor>y\<rfloor> + 1" by linarith+
  then show ?thesis by (auto simp: round_half_even_def Let_def)
qed

lemma float32_error: "\<bar>float32 x - x\<bar> \<le> u32 * \<bar>x\<bar>"
proof (cases "x = 0")
  case True
  then show ?thesis by (simp add: float32_0)
next
  case False
  let ?k = "ilog2 \<bar>x\<bar>"
  let ?p = "(2::real) powi (?k - 23)"
  have pos: "0 < \<bar>x\<bar>" using False by simp
  have p: "0 < ?p" by simp
  have "float32 x - x = (of_int (round_half_even (x / ?p)) - x / ?p) * ?p"
    using p by (simp add: float32_def Let_def field_simps)
  then have "\<bar>float32 x - x\<bar> = \<bar>of_int (round_half_even (x / ?p)) - x / ?p\<bar> * ?p"
    using p by (simp add: abs_mult)
  also have "\<dots> \<le> 1 / 2 * ?p"
    by (rule mult_right_mono [OF round_half_even_error]) simp
  also have "1 / 2 * ?p = 2 powi ?k / 2 ^ 24"
    by (simp add: power_int_diff)
  also have "\<dots> \<le> \<bar>x\<bar> / 2 ^ 24"
    using ilog2_bounds [OF pos] by (simp add: divide_right_mono)
  finally show ?thesis by (simp add: u32_def)
qed

lemma float32_abs_le: "\<bar>float32 x\<bar> \<le> (1 + u32) * \<bar>x\<bar>"
  using float32_error [of x] by (simp add: algebra_simps)

lemma in_range32_0: "in_range32 0"
  by (simp add: in_range32_def)

lemma exact32_0: "exact32 0"
  by (simp add: exact32_def float32_0 in_range32_def)

lemma in_range32I: "1 / 4 \<le> \<bar>x\<bar> \<Longrightarrow> \<bar>x\<bar> \<le> 2 ^ 24 \<Longrightarrow> in_range32 x"
proof -
  assume lo: "1 / 4 \<le> \<bar>x\<bar>" and hi: "\<bar>x\<bar> \<le> 2 ^ 24"
  have "(1::real) / 2 ^ 100 \<le> 1 / 4" by simp
  moreover have "(2::real) ^ 24 \<le> 2 ^ 100" by simp
  ultimately show ?thesis using lo hi unfolding in_range32_def by linarith
qed

lemma in_range32_pos: "1 / 4 \<le> x \<Longrightarrow> x \<le> 2 ^ 24 \<Longrightarrow> in_range32 x"
  by (rule in_range32I) simp_all

lemma numeral_bound: "(numeral n :: int) \<le> 2 ^ 24 \<Longrightarrow> (numeral n :: real) \<le> 2 ^ 24"
  by (metis of_int_le_iff of_int_numeral of_int_power)

lemma numeral_ge_1: "(1::real) \<le> numeral n"
  by simp

lemma exact32_numeral: "(numeral n :: int) \<le> 2 ^ 24 \<Longrightarrow> exact32 (numeral n)"
proof -
  assume n: "(numeral n :: int) \<le> 2 ^ 24"
  have "1 / 4 \<le> (numeral n :: real)" using numeral_ge_1 [of n] by linarith
  then have "in_range32 (numeral n)"
    using numeral_bound [OF n] by (rule in_range32_pos)
  then show ?thesis using n by (simp add: exact32_def float32_numeral)
qed

lemma exact32_1: "exact32 1"
  by (simp add: exact32_def float32_1 in_range32_def)

lemma exact32_half: "(numeral n :: int) < 2 ^ 24 \<Longrightarrow> exact32 (numeral n / 2)"
proof -
  assume n: "(numeral n :: int) < 2 ^ 24"
  then have "(numeral n :: int) \<le> 2 ^ 24" by simp
  then have b: "(numeral n :: real) \<le> 2 ^ 24" by (rule numeral_bound)
  have "1 / 4 \<le> (numeral n :: real) / 2" using numeral_ge_1 [of n] by linarith
  moreover have "(numeral n :: real) / 2 \<le> 2 ^ 24" using b numeral_ge_1 [of n] by linarith
  ultimately have "in_range32 (numeral n / 2)" by (rule in_range32_pos)
  then show ?thesis using n by (simp add: exact32_def float32_half)
qed

lemma exact32_quarter: "(numeral n :: int) < 2 ^ 24 \<Longrightarrow> exact32 (numeral n / 4)"
proof -
  assume n: "(numeral n :: int) < 2 ^ 24"
  then have "(numeral n :: int) \<le> 2 ^ 24" by simp
  then have b: "(numeral n :: real) \<le> 2 ^ 24" by (rule numeral_bound)
  have "1 / 4 \<le> (numeral n :: real) / 4" using numeral_ge_1 [of n] by linarith
  moreover have "(numeral n :: real) / 4 \<le> 2 ^ 24" using b numeral_ge_1 [of n] by linarith
  ultimately have "in_range32 (numeral n / 4)" by (rule in_range32_pos)
  then show ?thesis using n by (simp add: exact32_def float32_quarter)
qed

lemma exact32_half1: "exact32 (1 / 2)"
  by (simp add: exact32_def float32_half1 in_range32_def)

lemmas x32 = exact32_0 exact32_1 exact32_numeral exact32_half exact32_quarter exact32_half1



subsection \<open>The return calculator\<close>

lemma return_loop_length:
  "length (return_loop gamma xs n i s R) = length R"
proof (induction gamma xs n i s R rule: return_loop.induct)
  case (1 gamma rewards n i discounted_sum returns)
  show ?case
  proof (cases "i < n")
    case True
    with "1" show ?thesis by (subst return_loop.simps) (simp add: Let_def)
  next
    case False
    then show ?thesis by (subst return_loop.simps) simp
  qed
qed

lemma return_loop_nth:
  "i \<le> n \<Longrightarrow> length R = n \<Longrightarrow> s = scan gamma xs i \<Longrightarrow> j < n \<Longrightarrow>
   return_loop gamma xs n i s R ! j = (if j < i then R ! j else scan gamma xs (Suc j))"
proof (induction gamma xs n i s R rule: return_loop.induct)
  case (1 gamma rewards n i discounted_sum returns)
  show ?case
  proof (cases "i < n")
    case True
    let ?s = "fadd (rewards ! i) (fmul gamma discounted_sum)"
    have s': "?s = scan gamma rewards (Suc i)"
      using "1.prems"(3) by simp
    have IH: "return_loop gamma rewards n (Suc i) ?s (returns[i := ?s]) ! j =
        (if j < Suc i then returns[i := ?s] ! j else scan gamma rewards (Suc j))"
      using "1.IH" [OF True refl refl _ _ s' "1.prems"(4)] True "1.prems"(2) by simp
    have unf: "return_loop gamma rewards n i discounted_sum returns =
        return_loop gamma rewards n (Suc i) ?s (returns[i := ?s])"
      using True by (subst return_loop.simps) (simp add: Let_def)
    show ?thesis
    proof (cases "j = i")
      case True
      then show ?thesis using IH unf s' \<open>i < n\<close> "1.prems"(2) by simp
    next
      case False
      then show ?thesis using IH unf by auto
    qed
  next
    case False
    then have "i = n" using "1.prems"(1) by simp
    then show ?thesis using False "1.prems"(4) by (subst return_loop.simps) simp
  qed
qed

lemma returns_raw_length:
  "length (get_expected_return rewards gamma False) = length rewards"
  by (simp add: get_expected_return_False return_loop_length)

lemma returns_raw_nth:
  assumes "t < length rewards"
  shows "get_expected_return rewards gamma False ! t =
    scan (float32 gamma) (cast_float (rev rewards)) (length rewards - t)"
proof -
  let ?n = "length rewards"
  let ?L = "return_loop (float32 gamma) (cast_float (rev rewards)) ?n 0 0 (replicate ?n 0)"
  have len: "length ?L = ?n" by (simp add: return_loop_length)
  have "get_expected_return rewards gamma False ! t = rev ?L ! t"
    by (simp add: get_expected_return_False)
  also have "\<dots> = ?L ! (?n - Suc t)" using assms len by (simp add: rev_nth)
  also have "\<dots> = scan (float32 gamma) (cast_float (rev rewards)) (Suc (?n - Suc t))"
    using assms by (subst return_loop_nth) auto
  also have "Suc (?n - Suc t) = ?n - t" using assms by simp
  finally show ?thesis .
qed

lemma cast_float_rev_nth:
  assumes "t < length rewards"
  shows "cast_float (rev rewards) ! (length rewards - Suc t) =
     float32 (real_of_int (sint (rewards ! t)))"
proof -
  have "length rewards - Suc (length rewards - Suc t) = t" using assms by simp
  then show ?thesis using assms by (simp add: cast_float_def rev_nth)
qed

lemma returns_raw_step:
  assumes "t < length rewards"
  shows "get_expected_return rewards gamma False ! t =
    fadd (float32 (real_of_int (sint (rewards ! t))))
         (fmul (float32 gamma)
            (if Suc t < length rewards then get_expected_return rewards gamma False ! Suc t
             else 0))"
proof -
  let ?n = "length rewards"
  let ?xs = "cast_float (rev rewards)"
  have k: "?n - t = Suc (?n - Suc t)" using assms by simp
  have "get_expected_return rewards gamma False ! t = scan (float32 gamma) ?xs (Suc (?n - Suc t))"
    using returns_raw_nth [OF assms, of gamma] k by simp
  also have "\<dots> = fadd (?xs ! (?n - Suc t)) (fmul (float32 gamma) (scan (float32 gamma) ?xs (?n - Suc t)))"
    by simp
  also have "?xs ! (?n - Suc t) = float32 (real_of_int (sint (rewards ! t)))"
    using assms by (rule cast_float_rev_nth)
  also have "scan (float32 gamma) ?xs (?n - Suc t) =
      (if Suc t < ?n then get_expected_return rewards gamma False ! Suc t else 0)"
  proof (cases "Suc t < ?n")
    case True
    then show ?thesis using returns_raw_nth [OF True, of gamma] by simp
  next
    case False
    then have "?n - Suc t = 0" by simp
    then show ?thesis using False by simp
  qed
  finally show ?thesis .
qed

lemma horner_step:
  "xs ! i + gamma * (\<Sum>m<i. gamma ^ (i - 1 - m) * xs ! m)
     = (\<Sum>m<Suc i. gamma ^ (i - m) * (xs ! m :: real))"
proof -
  have "gamma * (\<Sum>m<i. gamma ^ (i - 1 - m) * xs ! m) = (\<Sum>m<i. gamma ^ (i - m) * xs ! m)"
    unfolding sum_distrib_left
  proof (rule sum.cong)
    fix m assume "m \<in> {..<i}"
    then have "i - m = Suc (i - 1 - m)" by auto
    then show "gamma * (gamma ^ (i - 1 - m) * xs ! m) = gamma ^ (i - m) * xs ! m" by simp
  qed simp
  then show ?thesis by simp
qed

lemma horner_sum_rev:
  assumes "k \<le> length rewards"
  shows "(\<Sum>m<k. gamma ^ (k - 1 - m) * real_of_int (sint (rev rewards ! m))) =
     discounted_sum_from gamma rewards (length rewards - k)"
proof -
  let ?n = "length rewards"
  show ?thesis unfolding discounted_sum_from_def
  proof (rule sum.reindex_bij_witness [where i = "\<lambda>j. ?n - Suc j" and j = "\<lambda>m. ?n - Suc m"])
    fix m assume m: "m \<in> {..<k}"
    then show "?n - Suc (?n - Suc m) = m" using assms by auto
    show "?n - Suc m \<in> {?n - k..<?n}" using m assms by auto
    have "m < ?n" using m assms by auto
    then have "rev rewards ! m = rewards ! (?n - Suc m)" by (simp add: rev_nth)
    moreover have "k - 1 - m = ?n - Suc m - (?n - k)" using m assms by auto
    ultimately show "gamma ^ (?n - Suc m - (?n - k)) * real_of_int (sint (rewards ! (?n - Suc m)))
        = gamma ^ (k - 1 - m) * real_of_int (sint (rev rewards ! m))" by simp
  next
    fix j assume j: "j \<in> {?n - k..<?n}"
    then show "?n - Suc (?n - Suc j) = j" by auto
    show "?n - Suc j \<in> {..<k}" using j assms by auto
  qed
qed

lemma discounted_sum_from_step:
  assumes "t < length rewards"
  shows "discounted_sum_from gamma rewards t =
     real_of_int (sint (rewards ! t)) + gamma * discounted_sum_from gamma rewards (Suc t)"
proof -
  let ?n = "length rewards"
  have "discounted_sum_from gamma rewards t =
      (\<Sum>m<?n - t. gamma ^ (?n - t - 1 - m) * real_of_int (sint (rev rewards ! m)))"
    using horner_sum_rev [of "?n - t" rewards gamma] assms by simp
  also have "?n - t = Suc (?n - Suc t)" using assms by simp
  also have "(\<Sum>m<Suc (?n - Suc t). gamma ^ (Suc (?n - Suc t) - 1 - m) * real_of_int (sint (rev rewards ! m)))
      = (\<Sum>m<Suc (?n - Suc t). gamma ^ (?n - Suc t - m) * (map (\<lambda>r. real_of_int (sint r)) (rev rewards) ! m))"
    using assms by (intro sum.cong) auto
  also have "\<dots> = map (\<lambda>r. real_of_int (sint r)) (rev rewards) ! (?n - Suc t) +
      gamma * (\<Sum>m<?n - Suc t. gamma ^ (?n - Suc t - 1 - m) * (map (\<lambda>r. real_of_int (sint r)) (rev rewards) ! m))"
    by (rule horner_step [symmetric])
  also have "map (\<lambda>r. real_of_int (sint r)) (rev rewards) ! (?n - Suc t) = real_of_int (sint (rewards ! t))"
    using assms by (simp add: rev_nth)
  also have "(\<Sum>m<?n - Suc t. gamma ^ (?n - Suc t - 1 - m) * (map (\<lambda>r. real_of_int (sint r)) (rev rewards) ! m))
      = (\<Sum>m<?n - Suc t. gamma ^ (?n - Suc t - 1 - m) * real_of_int (sint (rev rewards ! m)))"
    using assms by (intro sum.cong) auto
  also have "\<dots> = discounted_sum_from gamma rewards (?n - (?n - Suc t))"
    by (rule horner_sum_rev) simp
  also have "?n - (?n - Suc t) = Suc t" using assms by simp
  finally show ?thesis .
qed

lemma discounted_sum_from_end: "length rewards \<le> t \<Longrightarrow> discounted_sum_from gamma rewards t = 0"
  by (simp add: discounted_sum_from_def)

lemma returns_raw_exact:
  assumes g: "exact32 gamma"
    and ex: "\<forall>t<length rewards.
       exact32 (real_of_int (sint (rewards ! t))) \<and>
       exact32 (gamma * discounted_sum_from gamma rewards (Suc t)) \<and>
       exact32 (discounted_sum_from gamma rewards t)"
  shows "t < length rewards \<Longrightarrow>
     get_expected_return rewards gamma False ! t = discounted_sum_from gamma rewards t"
proof (induction "length rewards - t" arbitrary: t)
  case 0
  then show ?case by simp
next
  case (Suc d)
  let ?n = "length rewards"
  let ?S = "discounted_sum_from gamma rewards"
  have t: "t < ?n" by (rule Suc.prems)
  have next_eq: "(if Suc t < ?n then get_expected_return rewards gamma False ! Suc t else 0) = ?S (Suc t)"
  proof (cases "Suc t < ?n")
    case True
    moreover have "d = ?n - Suc t" using Suc.hyps(2) by simp
    ultimately show ?thesis using Suc.hyps(1) [of "Suc t"] by simp
  next
    case False
    then show ?thesis by (simp add: discounted_sum_from_end)
  qed
  have c: "float32 (real_of_int (sint (rewards ! t))) = real_of_int (sint (rewards ! t))"
    using ex t by (simp add: exact32_def)
  have p: "float32 (gamma * ?S (Suc t)) = gamma * ?S (Suc t)"
    using ex t by (simp add: exact32_def)
  have s: "float32 (?S t) = ?S t"
    using ex t by (simp add: exact32_def)
  have "get_expected_return rewards gamma False ! t =
      fadd (float32 (real_of_int (sint (rewards ! t)))) (fmul (float32 gamma) (?S (Suc t)))"
    using returns_raw_step [OF t, of gamma] next_eq by simp
  also have "\<dots> = float32 (real_of_int (sint (rewards ! t)) + gamma * ?S (Suc t))"
    using g c p by (simp add: fadd_def fmul_def exact32_def)
  also have "\<dots> = float32 (?S t)"
    using discounted_sum_from_step [OF t, of gamma] by simp
  finally show ?case using s by simp
qed


lemma discounted_sum_from_replicate:
  assumes "gamma \<noteq> 1" "t \<le> n"
  shows "discounted_sum_from gamma (replicate n r) t =
     constant_return (real_of_int (sint r)) gamma (n - t)"
proof -
  have "discounted_sum_from gamma (replicate n r) t =
      (\<Sum>k = t..<n. gamma ^ (k - t) * real_of_int (sint r))"
    unfolding discounted_sum_from_def by (intro sum.cong) simp_all
  also have "\<dots> = (\<Sum>j<n - t. gamma ^ j * real_of_int (sint r))"
    by (rule sum.reindex_bij_witness [where i = "\<lambda>j. j + t" and j = "\<lambda>k. k - t"]) auto
  also have "\<dots> = real_of_int (sint r) * (\<Sum>j<n - t. gamma ^ j)"
    by (simp add: sum_distrib_left mult.commute)
  also have "(\<Sum>j<n - t. gamma ^ j) = (1 - gamma ^ (n - t)) / (1 - gamma)"
    using assms(1) by (simp add: sum_gp_strict)
  finally show ?thesis by (simp add: constant_return_def)
qed

lemma u32_pos: "0 < u32"
  by (simp add: u32_def)

lemma step_error:
  assumes K: "1 \<le> K" and g: "\<bar>g - s\<bar> \<le> (K - 1) * b" and s: "\<bar>s\<bar> \<le> b"
  shows "\<bar>fadd (float32 r) (fmul (float32 gamma) g) - (r + gamma * s)\<bar>
           \<le> (K * (1 + u32) ^ 3 - 1) * (\<bar>r\<bar> + \<bar>gamma\<bar> * b)"
proof -
  note u = u32_pos
  define gh where "gh = float32 gamma"
  define p where "p = float32 (gh * g)"
  define rh where "rh = float32 r"
  define X where "X = \<bar>gamma\<bar> * b"
  define W where "W = \<bar>r\<bar> + X"
  define M where "M = K * (1 + u32)\<^sup>2"
  have b: "0 \<le> b" using s by linarith
  have X: "0 \<le> X" unfolding X_def using b by simp
  have W: "0 \<le> W" unfolding W_def using X by simp
  have M1: "1 + 2 * u32 \<le> M"
  proof -
    have "1 * (1 + u32)\<^sup>2 \<le> K * (1 + u32)\<^sup>2" using K by (intro mult_right_mono) simp_all
    moreover have "(1 + u32)\<^sup>2 = 1 + 2 * u32 + u32\<^sup>2" by (simp add: power2_eq_square algebra_simps)
    moreover have "0 \<le> u32\<^sup>2" by simp
    ultimately show ?thesis unfolding M_def by linarith
  qed
  have gb: "\<bar>g\<bar> \<le> K * b"
  proof -
    have "\<bar>g\<bar> \<le> b + (K - 1) * b" using g s by linarith
    also have "\<dots> = K * b" by (simp add: algebra_simps)
    finally show ?thesis .
  qed
  have gh1: "\<bar>gh - gamma\<bar> \<le> u32 * \<bar>gamma\<bar>" unfolding gh_def by (rule float32_error)
  have gh2: "\<bar>gh\<bar> \<le> (1 + u32) * \<bar>gamma\<bar>" unfolding gh_def by (rule float32_abs_le)
  have KX: "\<bar>gamma\<bar> * \<bar>g\<bar> \<le> K * X"
  proof -
    have "\<bar>gamma\<bar> * \<bar>g\<bar> \<le> \<bar>gamma\<bar> * (K * b)" using gb by (intro mult_left_mono) simp_all
    then show ?thesis by (simp add: X_def algebra_simps)
  qed
  have ghg: "\<bar>gh * g\<bar> \<le> (1 + u32) * (K * X)"
  proof -
    have "\<bar>gh\<bar> * \<bar>g\<bar> \<le> ((1 + u32) * \<bar>gamma\<bar>) * \<bar>g\<bar>" using gh2 by (intro mult_right_mono) simp_all
    also have "\<dots> = (1 + u32) * (\<bar>gamma\<bar> * \<bar>g\<bar>)" by simp
    also have "\<dots> \<le> (1 + u32) * (K * X)" using KX u by (intro mult_left_mono) simp_all
    finally show ?thesis by (simp add: abs_mult)
  qed
  have A: "\<bar>p - gh * g\<bar> \<le> u32 * ((1 + u32) * (K * X))"
  proof -
    have "\<bar>p - gh * g\<bar> \<le> u32 * \<bar>gh * g\<bar>" unfolding p_def by (rule float32_error)
    also have "\<dots> \<le> u32 * ((1 + u32) * (K * X))" using ghg u by (intro mult_left_mono) simp_all
    finally show ?thesis .
  qed
  have B: "\<bar>gh * g - gamma * g\<bar> \<le> u32 * (K * X)"
  proof -
    have "\<bar>gh * g - gamma * g\<bar> = \<bar>gh - gamma\<bar> * \<bar>g\<bar>" by (simp add: abs_mult flip: left_diff_distrib)
    also have "\<dots> \<le> (u32 * \<bar>gamma\<bar>) * \<bar>g\<bar>" using gh1 by (intro mult_right_mono) simp_all
    also have "\<dots> = u32 * (\<bar>gamma\<bar> * \<bar>g\<bar>)" by simp
    also have "\<dots> \<le> u32 * (K * X)" using KX u by (intro mult_left_mono) simp_all
    finally show ?thesis .
  qed
  have C: "\<bar>gamma * g - gamma * s\<bar> \<le> (K - 1) * X"
  proof -
    have "\<bar>gamma * g - gamma * s\<bar> = \<bar>gamma\<bar> * \<bar>g - s\<bar>" by (simp add: abs_mult flip: right_diff_distrib)
    also have "\<dots> \<le> \<bar>gamma\<bar> * ((K - 1) * b)" using g by (intro mult_left_mono) simp_all
    finally show ?thesis by (simp add: X_def algebra_simps)
  qed
  have "\<bar>p - gamma * s\<bar> \<le> u32 * ((1 + u32) * (K * X)) + u32 * (K * X) + (K - 1) * X"
    using A B C by linarith
  also have "\<dots> = (M - 1) * X"
    by (simp add: M_def power2_eq_square algebra_simps)
  finally have D: "\<bar>p - gamma * s\<bar> \<le> (M - 1) * X" .
  have rh: "\<bar>rh - r\<bar> \<le> u32 * \<bar>r\<bar>" unfolding rh_def by (rule float32_error)
  have "u32 * \<bar>r\<bar> \<le> (M - 1) * \<bar>r\<bar>" using M1 u by (intro mult_right_mono) simp_all
  with rh D have "\<bar>(rh + p) - (r + gamma * s)\<bar> \<le> (M - 1) * \<bar>r\<bar> + (M - 1) * X"
    by linarith
  also have "\<dots> = (M - 1) * W" by (simp add: W_def algebra_simps)
  finally have E: "\<bar>(rh + p) - (r + gamma * s)\<bar> \<le> (M - 1) * W" .
  have gs: "\<bar>gamma * s\<bar> \<le> X"
    unfolding X_def abs_mult using s by (intro mult_left_mono) simp_all
  have F: "\<bar>rh + p\<bar> \<le> M * W"
  proof -
    have "\<bar>rh + p\<bar> \<le> \<bar>r + gamma * s\<bar> + \<bar>(rh + p) - (r + gamma * s)\<bar>" by linarith
    also have "\<dots> \<le> W + (M - 1) * W" using E gs unfolding W_def by linarith
    also have "\<dots> = M * W" by (simp add: algebra_simps)
    finally show ?thesis .
  qed
  have G: "\<bar>float32 (rh + p) - (rh + p)\<bar> \<le> u32 * (M * W)"
  proof -
    have "\<bar>float32 (rh + p) - (rh + p)\<bar> \<le> u32 * \<bar>rh + p\<bar>" by (rule float32_error)
    also have "\<dots> \<le> u32 * (M * W)" using F u by (intro mult_left_mono) simp_all
    finally show ?thesis .
  qed
  have "\<bar>float32 (rh + p) - (r + gamma * s)\<bar> \<le> u32 * (M * W) + (M - 1) * W"
    using G E by linarith
  also have "\<dots> = (K * (1 + u32) ^ 3 - 1) * W"
    by (simp add: M_def power2_eq_square power3_eq_cube algebra_simps)
  finally show ?thesis
    by (simp add: fadd_def fmul_def rh_def p_def gh_def W_def X_def)
qed

lemma discounted_abs_sum_from_step:
  assumes "t < length rewards"
  shows "discounted_abs_sum_from gamma rewards t =
     \<bar>real_of_int (sint (rewards ! t))\<bar> + \<bar>gamma\<bar> * discounted_abs_sum_from gamma rewards (Suc t)"
proof -
  let ?n = "length rewards"
  let ?f = "\<lambda>k. \<bar>gamma\<bar> ^ (k - t) * \<bar>real_of_int (sint (rewards ! k))\<bar>"
  have "discounted_abs_sum_from gamma rewards t = ?f t + (\<Sum>k = Suc t..<?n. ?f k)"
    unfolding discounted_abs_sum_from_def using assms by (rule sum.atLeast_Suc_lessThan)
  also have "(\<Sum>k = Suc t..<?n. ?f k) =
      (\<Sum>k = Suc t..<?n. \<bar>gamma\<bar> * (\<bar>gamma\<bar> ^ (k - Suc t) * \<bar>real_of_int (sint (rewards ! k))\<bar>))"
  proof (rule sum.cong)
    fix k assume "k \<in> {Suc t..<?n}"
    then have "k - t = Suc (k - Suc t)" by auto
    then show "?f k = \<bar>gamma\<bar> * (\<bar>gamma\<bar> ^ (k - Suc t) * \<bar>real_of_int (sint (rewards ! k))\<bar>)"
      by simp
  qed simp
  also have "\<dots> = \<bar>gamma\<bar> * discounted_abs_sum_from gamma rewards (Suc t)"
    by (simp add: discounted_abs_sum_from_def sum_distrib_left)
  finally show ?thesis by simp
qed

lemma discounted_abs_sum_from_end:
  "length rewards \<le> t \<Longrightarrow> discounted_abs_sum_from gamma rewards t = 0"
  by (simp add: discounted_abs_sum_from_def)

lemma discounted_sum_from_abs_le:
  "\<bar>discounted_sum_from gamma rewards t\<bar> \<le> discounted_abs_sum_from gamma rewards t"
proof -
  have "\<bar>discounted_sum_from gamma rewards t\<bar> \<le>
      (\<Sum>k = t..<length rewards. \<bar>gamma ^ (k - t) * real_of_int (sint (rewards ! k))\<bar>)"
    unfolding discounted_sum_from_def by (rule sum_abs)
  then show ?thesis by (simp add: discounted_abs_sum_from_def abs_mult power_abs)
qed

lemma returns_raw_error:
  "t < length rewards \<Longrightarrow>
     \<bar>get_expected_return rewards gamma False ! t - discounted_sum_from gamma rewards t\<bar>
       \<le> ((1 + u32) ^ (3 * (length rewards - t)) - 1) * discounted_abs_sum_from gamma rewards t"
proof (induction "length rewards - t" arbitrary: t)
  case 0
  then show ?case by simp
next
  case (Suc d)
  let ?n = "length rewards"
  let ?G = "get_expected_return rewards gamma False"
  let ?S = "discounted_sum_from gamma rewards"
  let ?B = "discounted_abs_sum_from gamma rewards"
  let ?K = "(1 + u32) ^ (3 * (?n - Suc t))"
  let ?g = "if Suc t < ?n then ?G ! Suc t else 0"
  have t: "t < ?n" by (rule Suc.prems)
  have K: "1 \<le> ?K" using u32_pos by simp
  have g: "\<bar>?g - ?S (Suc t)\<bar> \<le> (?K - 1) * ?B (Suc t)"
  proof (cases "Suc t < ?n")
    case True
    moreover have "d = ?n - Suc t" using Suc.hyps(2) by simp
    ultimately show ?thesis using Suc.hyps(1) [of "Suc t"] by simp
  next
    case False
    then show ?thesis by (simp add: discounted_sum_from_end discounted_abs_sum_from_end)
  qed
  have s: "\<bar>?S (Suc t)\<bar> \<le> ?B (Suc t)" by (rule discounted_sum_from_abs_le)
  have e: "3 * (?n - t) = 3 * (?n - Suc t) + 3" using t by simp
  have "\<bar>?G ! t - ?S t\<bar> =
      \<bar>fadd (float32 (real_of_int (sint (rewards ! t)))) (fmul (float32 gamma) ?g) -
       (real_of_int (sint (rewards ! t)) + gamma * ?S (Suc t))\<bar>"
    using returns_raw_step [OF t, of gamma] discounted_sum_from_step [OF t, of gamma] by simp
  also have "\<dots> \<le> (?K * (1 + u32) ^ 3 - 1) *
      (\<bar>real_of_int (sint (rewards ! t))\<bar> + \<bar>gamma\<bar> * ?B (Suc t))"
    using K g s by (rule step_error)
  also have "\<dots> = ((1 + u32) ^ (3 * (?n - t)) - 1) * ?B t"
    unfolding e power_add discounted_abs_sum_from_step [OF t, of gamma] ..
  finally show ?case .
qed

lemma discounted_abs_sum_from_replicate:
  assumes "0 < gamma" "gamma < 1" "t \<le> n"
  shows "discounted_abs_sum_from gamma (replicate n r) t =
     constant_return \<bar>real_of_int (sint r)\<bar> gamma (n - t)"
proof -
  have "discounted_abs_sum_from gamma (replicate n r) t =
      (\<Sum>k = t..<n. gamma ^ (k - t) * \<bar>real_of_int (sint r)\<bar>)"
    unfolding discounted_abs_sum_from_def using assms(1) by (intro sum.cong) simp_all
  also have "\<dots> = (\<Sum>j<n - t. gamma ^ j * \<bar>real_of_int (sint r)\<bar>)"
    by (rule sum.reindex_bij_witness [where i = "\<lambda>j. j + t" and j = "\<lambda>k. k - t"]) auto
  also have "\<dots> = \<bar>real_of_int (sint r)\<bar> * (\<Sum>j<n - t. gamma ^ j)"
    by (simp add: sum_distrib_left mult.commute)
  also have "(\<Sum>j<n - t. gamma ^ j) = (1 - gamma ^ (n - t)) / (1 - gamma)"
    using assms(2) by (simp add: sum_gp_strict)
  finally show ?thesis by (simp add: constant_return_def)
qed







text \<open>
  Claim C3. For the rewards \<open>[1, 1, 1]\<close> without standardisation the returns are
  \<open>[3, 2, 1]\<close> at discount 1 and \<open>[1.75, 1.5, 1]\<close> at discount 0.5.
\<close>

theorem get_expected_return_examples:
  "get_expected_return [1, 1, 1] 1 False = [3, 2, 1] \<and>
   get_expected_return [1, 1, 1] (1/2) False = [7/4, 3/2, 1]"
  by (simp add: get_expected_return_False cast_float_def return_loop.simps numeral_3_eq_3 f32)

text \<open>
  Claim C4, as stated, fails on float32. For two rewards of value \<open>8388609 = 2^23 + 1\<close>
  at discount 0.5 the closed form is \<open>12582913.5\<close>, which is not a float32 number; the
  return at step 0 is \<open>12582914\<close>.
\<close>

theorem get_expected_return_geometric_counterexample:
  "get_expected_return (replicate 2 8388609) (1/2) False ! 0 = 12582914 \<and>
   real_of_int (sint (8388609 :: 32 word)) * (1 - (1/2) ^ 2) / (1 - 1/2) = 25165827 / 2"
proof -
  have "get_expected_return (replicate 2 8388609) (1/2) False = [12582914, 8388609]"
    by (simp add: get_expected_return_False cast_float_def return_loop.simps numeral_2_eq_2
        f32 float32_25165827_half)
  then show ?thesis by (simp add: power2_eq_square)
qed

lemma returns_of_8388609_twice: "get_expected_return (replicate 2 8388609) (1/2) False = [12582914, 8388609]"
  by (simp add: get_expected_return_False cast_float_def return_loop.simps numeral_2_eq_2
      f32 float32_25165827_half)

text \<open>
  Claim C4, amended. For a constant reward sequence of value \<open>r\<close> and length \<open>n\<close>
  (with a step 0, so \<open>n > 0\<close>) and a discount strictly between 0 and 1, the
  unstandardised return at step 0 is \<open>r * (1 - gamma^n) / (1 - gamma)\<close> up to
  rounding: the relative error is at most \<open>(1 + 2^-24)^(3 * n) - 1\<close>, and the two are
  equal whenever the discount, the reward, the closed forms for the lengths up to \<open>n\<close>
  and their products with the discount are float32 numbers, so that no operation rounds.
\<close>

theorem get_expected_return_geometric:
  assumes "0 < gamma" "gamma < 1" "0 < n"
  shows "(in_range32 (float32 gamma) \<and>
          (\<forall>t<n. in_range32 (get_expected_return (replicate n r) gamma False ! t)) \<longrightarrow>
            \<bar>get_expected_return (replicate n r) gamma False ! 0 -
             real_of_int (sint r) * (1 - gamma ^ n) / (1 - gamma)\<bar>
              \<le> ((1 + u32) ^ (3 * n) - 1) *
                 (\<bar>real_of_int (sint r)\<bar> * (1 - gamma ^ n) / (1 - gamma))) \<and>
         (exact32 gamma \<and> exact32 (real_of_int (sint r)) \<and>
          (\<forall>k<n. exact32 (gamma * constant_return (real_of_int (sint r)) gamma k) \<and>
                  exact32 (constant_return (real_of_int (sint r)) gamma (Suc k))) \<longrightarrow>
            get_expected_return (replicate n r) gamma False ! 0 =
              real_of_int (sint r) * (1 - gamma ^ n) / (1 - gamma))"
proof (intro conjI impI)
  let ?rs = "replicate n r"
  have ne: "gamma \<noteq> 1" using assms(2) by simp
  have S: "discounted_sum_from gamma ?rs t = constant_return (real_of_int (sint r)) gamma (n - t)"
    if "t \<le> n" for t
    using ne that by (rule discounted_sum_from_replicate)
  have "\<bar>get_expected_return ?rs gamma False ! 0 - discounted_sum_from gamma ?rs 0\<bar>
      \<le> ((1 + u32) ^ (3 * (length ?rs - 0)) - 1) * discounted_abs_sum_from gamma ?rs 0"
    using assms(3) by (intro returns_raw_error) simp
  then show "\<bar>get_expected_return ?rs gamma False ! 0 -
             real_of_int (sint r) * (1 - gamma ^ n) / (1 - gamma)\<bar>
              \<le> ((1 + u32) ^ (3 * n) - 1) *
                 (\<bar>real_of_int (sint r)\<bar> * (1 - gamma ^ n) / (1 - gamma))"
    using S [of 0] discounted_abs_sum_from_replicate [OF assms(1,2), of 0 n r]
    by (simp add: constant_return_def)
  assume hyp: "exact32 gamma \<and> exact32 (real_of_int (sint r)) \<and>
          (\<forall>k<n. exact32 (gamma * constant_return (real_of_int (sint r)) gamma k) \<and>
                  exact32 (constant_return (real_of_int (sint r)) gamma (Suc k)))"
  have ex: "\<forall>t<length ?rs.
       exact32 (real_of_int (sint (?rs ! t))) \<and>
       exact32 (gamma * discounted_sum_from gamma ?rs (Suc t)) \<and>
       exact32 (discounted_sum_from gamma ?rs t)"
  proof (intro allI impI conjI)
    fix t assume "t < length ?rs"
    then have t: "t < n" by simp
    show "exact32 (real_of_int (sint (?rs ! t)))" using t hyp by simp
    have k: "n - Suc t < n" using t by simp
    show "exact32 (gamma * discounted_sum_from gamma ?rs (Suc t))"
      using hyp k t by (simp add: S)
    have "Suc (n - Suc t) = n - t" using t by simp
    then show "exact32 (discounted_sum_from gamma ?rs t)"
      using hyp k t S [of t] by (metis less_imp_le_nat)
  qed
  have g: "exact32 gamma" using hyp by simp
  have "get_expected_return ?rs gamma False ! 0 = discounted_sum_from gamma ?rs 0"
    using returns_raw_exact [OF g ex, of 0] assms(3) by simp
  also have "\<dots> = constant_return (real_of_int (sint r)) gamma n"
    using S [of 0] by simp
  finally show "get_expected_return ?rs gamma False ! 0 =
              real_of_int (sint r) * (1 - gamma ^ n) / (1 - gamma)"
    by (simp add: constant_return_def)
qed

theorem get_expected_return_geometric_witness:
  "(0::real) < 1/2 \<and> (1/2::real) < 1 \<and> (0::nat) < 3 \<and> exact32 (1/2) \<and>
   exact32 (real_of_int (sint (1 :: 32 word))) \<and>
   exact32 (1/2 * constant_return 1 (1/2) 0) \<and> exact32 (constant_return 1 (1/2) 1) \<and>
   exact32 (1/2 * constant_return 1 (1/2) 1) \<and> exact32 (constant_return 1 (1/2) 2) \<and>
   exact32 (1/2 * constant_return 1 (1/2) 2) \<and> exact32 (constant_return 1 (1/2) 3) \<and>
   get_expected_return (replicate 3 1) (1/2) False ! 0 = 1 * (1 - (1/2) ^ 3) / (1 - 1/2) \<and>
   (0::nat) < 2 \<and> in_range32 (float32 (1/2)) \<and>
   get_expected_return (replicate 2 8388609) (1/2) False = [12582914, 8388609] \<and>
   in_range32 12582914 \<and> in_range32 8388609 \<and>
   \<bar>12582914 - 8388609 * (1 - (1/2) ^ 2) / (1 - 1/2) :: real\<bar>
     \<le> ((1 + u32) ^ (3 * 2) - 1) * (\<bar>8388609\<bar> * (1 - (1/2) ^ 2) / (1 - 1/2))"
proof -
  have cr: "constant_return 1 (1/2) 0 = 0" "constant_return 1 (1/2) 1 = 1"
      "constant_return 1 (1/2) 2 = 3/2" "constant_return 1 (1/2) 3 = 7/4"
    by (simp_all add: constant_return_def power2_eq_square power3_eq_cube)
  have ex: "exact32 (1/2)" "exact32 (real_of_int (sint (1 :: 32 word)))"
      "exact32 (1/2 * constant_return 1 (1/2) 0)" "exact32 (constant_return 1 (1/2) 1)"
      "exact32 (1/2 * constant_return 1 (1/2) 1)" "exact32 (constant_return 1 (1/2) 2)"
      "exact32 (1/2 * constant_return 1 (1/2) 2)" "exact32 (constant_return 1 (1/2) 3)"
    unfolding cr by (simp_all add: x32)
  have all: "\<forall>k<3. exact32 (1/2 * constant_return (real_of_int (sint (1 :: 32 word))) (1/2) k) \<and>
               exact32 (constant_return (real_of_int (sint (1 :: 32 word))) (1/2) (Suc k))"
    using ex by (simp add: less_Suc_eq numeral_3_eq_3 numeral_2_eq_2)
  have e3: "get_expected_return (replicate 3 1) (1/2) False ! 0 = 1 * (1 - (1/2) ^ 3) / (1 - 1/2)"
    using get_expected_return_geometric [of "1/2" 3 1] ex(1) ex(2) all by simp
  have rng: "in_range32 (float32 (1/2))" "in_range32 12582914" "in_range32 8388609"
    by (simp_all add: f32 in_range32_def)
  have rng_all: "\<forall>t<2. in_range32 ([12582914, 8388609] ! t)"
    using rng by (simp add: less_Suc_eq numeral_2_eq_2)
  have "\<bar>[12582914, 8388609] ! 0 -
         real_of_int (sint (8388609 :: 32 word)) * (1 - (1/2) ^ 2) / (1 - 1/2)\<bar>
     \<le> ((1 + u32) ^ (3 * 2) - 1) *
        (\<bar>real_of_int (sint (8388609 :: 32 word))\<bar> * (1 - (1/2) ^ 2) / (1 - 1/2))"
    using get_expected_return_geometric [of "1/2" 2 8388609, unfolded returns_of_8388609_twice] rng(1) rng_all by simp
  then have e2: "\<bar>12582914 - 8388609 * (1 - (1/2) ^ 2) / (1 - 1/2) :: real\<bar>
     \<le> ((1 + u32) ^ (3 * 2) - 1) * (\<bar>8388609\<bar> * (1 - (1/2) ^ 2) / (1 - 1/2))"
    by simp
  show ?thesis using ex e3 rng returns_of_8388609_twice e2 by simp
qed

subsection \<open>Standardised returns\<close>




lemma get_expected_return_True:
  "get_expected_return rewards gamma True =
     map (\<lambda>g. fdiv (fsub g (reduce_mean32 (get_expected_return rewards gamma False)))
                     (fadd (reduce_std32 (get_expected_return rewards gamma False)) eps))
         (get_expected_return rewards gamma False)"
  by (simp add: get_expected_return_def Let_def)


























lemma float32_neg_numeral:
  "(numeral n :: int) \<le> 2 ^ 24 \<Longrightarrow> float32 (- numeral n) = - numeral n"
  using float32_of_int [of "- numeral n"] by simp

































subsection \<open>The loss\<close>

lemma collect_map_Inr: "collect (map (\<lambda>x. Inr (g x)) xs) = Inr (map g xs)"
  by (induction xs) simp_all

lemma binop_columns:
  assumes "length xs = length ys"
  shows "binop f (expand_dims xs) (expand_dims ys) = Inr (expand_dims (map2 f xs ys))"
proof -
  have "broadcast_axis (expand_dims xs) (expand_dims ys) = Inr (zip (expand_dims xs) (expand_dims ys))"
    using assms by (simp add: broadcast_axis_def expand_dims_def)
  moreover have "map (\<lambda>(r, s). case broadcast_axis r s of
                                   Inl e \<Rightarrow> Inl e
                                 | Inr cells \<Rightarrow> Inr (map (\<lambda>(x, y). f x y) cells))
                     (zip (expand_dims xs) (expand_dims ys))
                 = map (\<lambda>(x, y). Inr [f x y]) (zip xs ys)"
    by (auto simp: expand_dims_def zip_map_map broadcast_axis_def)
  moreover have "collect (map (\<lambda>(x, y). Inr [f x y]) (zip xs ys)) = Inr (map (\<lambda>(x, y). [f x y]) (zip xs ys))"
    using collect_map_Inr [of "\<lambda>(x, y). [f x y]" "zip xs ys"] by (simp add: case_prod_unfold)
  ultimately show ?thesis
    by (simp add: binop_def expand_dims_def case_prod_unfold comp_def)
qed

lemma sum_list_map2_nth:
  "length xs = length ys \<Longrightarrow>
   sum_list (map2 f xs ys) = (\<Sum>t<length xs. (f (xs ! t) (ys ! t) :: real))"
proof -
  assume len: "length xs = length ys"
  have "map2 f xs ys = map (\<lambda>t. f (xs ! t) (ys ! t)) [0..<length xs]"
    using len by (intro nth_equalityI) simp_all
  then show ?thesis by (simp add: sum_list_sum_nth atLeast0LessThan flip: sum_list_distinct_conv_sum_set)
qed

lemma reduce_sum_columns: "reduce_sum (expand_dims xs) = sum_list xs"
  by (simp add: reduce_sum_def expand_dims_def comp_def)

lemma tf_log_columns:
  "\<forall>x\<in>set ps. 0 < x \<Longrightarrow> tf_log (expand_dims ps) = Inr (expand_dims (map ln ps))"
  by (simp add: tf_log_def expand_dims_def)

lemma huber_loss_columns:
  assumes "length vs = length gs"
  shows "huber_loss (expand_dims vs) (expand_dims gs) =
    Inr (sum_list (map2 (\<lambda>g v. if \<bar>g - v\<bar> \<le> 1 then 1/2 * (g - v)\<^sup>2 else \<bar>g - v\<bar> - 1/2) gs vs))"
proof -
  have "binop (-) (expand_dims gs) (expand_dims vs) = Inr (expand_dims (map2 (-) gs vs))"
    using assms by (simp add: binop_columns)
  then show ?thesis
    by (simp add: huber_loss_def huber_def expand_dims_def reduce_mean_def comp_def
        case_prod_unfold cong: if_cong)
qed

lemma compute_loss_columns:
  assumes "length p = length v" "length G = length v" "\<forall>x\<in>set p. 0 < x"
  shows "compute_loss (expand_dims p) (expand_dims v) (expand_dims G) =
     Inr (- sum_list (map2 (*) (map ln p) (map2 (-) G v)) +
          sum_list (map2 (\<lambda>g v. if \<bar>g - v\<bar> \<le> 1 then 1/2 * (g - v)\<^sup>2 else \<bar>g - v\<bar> - 1/2) G v))"
proof -
  let ?adv = "map2 (-) G v"
  have adv: "binop (-) (expand_dims G) (expand_dims v) = Inr (expand_dims ?adv)"
    using assms by (simp add: binop_columns)
  have lg: "tf_log (expand_dims p) = Inr (expand_dims (map ln p))"
    using assms(3) by (rule tf_log_columns)
  have w: "binop (*) (expand_dims (map ln p)) (expand_dims ?adv) =
           Inr (expand_dims (map2 (*) (map ln p) ?adv))"
    using assms by (simp add: binop_columns)
  have critic: "huber_loss (expand_dims v) (expand_dims G) =
      Inr (sum_list (map2 (\<lambda>g v. if \<bar>g - v\<bar> \<le> 1 then 1/2 * (g - v)\<^sup>2 else \<bar>g - v\<bar> - 1/2) G v))"
    using assms by (simp add: huber_loss_columns)
  show ?thesis
    by (simp add: compute_loss_def adv lg w critic reduce_sum_columns)
qed

text \<open>
  Claim C2. For action probabilities \<open>p\<close> (positive, as softmax outputs are), value
  estimates \<open>v\<close> and returns \<open>G\<close> of one length \<open>n\<close>, passed as the \<open>[n, 1]\<close>
  columns that \<open>train_step\<close> builds, \<open>compute_loss\<close> returns actor loss plus critic
  loss: the actor loss is \<open>- \<Sum>t. ln (p t) * (G t - v t)\<close>, the critic loss is the sum
  over the steps of the Huber loss of \<open>G t - v t\<close>, quadratic up to 1 and linear beyond.
\<close>

theorem compute_loss_actor_critic:
  assumes "length p = n" "length v = n" "length G = n" "\<forall>x\<in>set p. 0 < x"
  shows "compute_loss (expand_dims p) (expand_dims v) (expand_dims G) =
     Inr (- (\<Sum>t<n. ln (p ! t) * (G ! t - v ! t)) +
          (\<Sum>t<n. if \<bar>G ! t - v ! t\<bar> \<le> 1 then 1/2 * (G ! t - v ! t)\<^sup>2
                  else \<bar>G ! t - v ! t\<bar> - 1/2))"
proof -
  have actor: "sum_list (map2 (*) (map ln p) (map2 (-) G v)) =
      (\<Sum>t<n. ln (p ! t) * (G ! t - v ! t))"
    using assms sum_list_map2_nth [of "map ln p" "map2 (-) G v" "(*)"] by simp
  have critic:
    "sum_list (map2 (\<lambda>g v. if \<bar>g - v\<bar> \<le> 1 then 1/2 * (g - v)\<^sup>2 else \<bar>g - v\<bar> - 1/2) G v) =
      (\<Sum>t<n. if \<bar>G ! t - v ! t\<bar> \<le> 1 then 1/2 * (G ! t - v ! t)\<^sup>2
              else \<bar>G ! t - v ! t\<bar> - 1/2)"
    using assms
      sum_list_map2_nth [of G v "\<lambda>g v. if \<bar>g - v\<bar> \<le> 1 then 1/2 * (g - v)\<^sup>2 else \<bar>g - v\<bar> - 1/2"]
    by simp
  have "compute_loss (expand_dims p) (expand_dims v) (expand_dims G) =
     Inr (- sum_list (map2 (*) (map ln p) (map2 (-) G v)) +
          sum_list (map2 (\<lambda>g v. if \<bar>g - v\<bar> \<le> 1 then 1/2 * (g - v)\<^sup>2 else \<bar>g - v\<bar> - 1/2) G v))"
    using assms by (intro compute_loss_columns) simp_all
  then show ?thesis unfolding actor critic .
qed

theorem compute_loss_actor_critic_witness:
  "compute_loss (expand_dims [1, 1/2]) (expand_dims [0, 1]) (expand_dims [2, 1/2]) =
     Inr (- (ln 1 * (2 - 0) + ln (1/2) * (1/2 - 1)) + ((2 - 1/2) + 1/2 * (1/2 - 1)\<^sup>2))"
  using compute_loss_actor_critic [of "[1, 1/2]" 2 "[0, 1]" "[2, 1/2]"]
  by (simp add: lessThan_Suc numeral_2_eq_2)

subsection \<open>The episode runner\<close>

lemma length_ta_write: "length ta = t \<Longrightarrow> length (ta_write ta t v) = Suc t"
  by (simp add: ta_write_def)

lemma episode_body_ok:
  assumes "sampler_in_range S"
  shows "\<exists>d c'. episode_body S t c = Inr (d, c')"
proof -
  obtain ls v where m: "model S (cur_state c) = (ls, v)" by (cases "model S (cur_state c)")
  obtain a r where s: "categorical S (cur_rng c) ls = (a, r)" by (cases "categorical S (cur_rng c) ls")
  have "a < length ls"
    using assms m s unfolding sampler_in_range_def
    by (metis fst_conv)
  then show ?thesis
    by (simp add: episode_body_def m s softmax_def Let_def split: prod.splits)
qed

lemma episode_body_filled:
  assumes "episode_body S t c = Inr (d, c')" "arrays_filled t c"
  shows "arrays_filled (Suc t) c'"
  using assms
  by (auto simp: episode_body_def arrays_filled_def Let_def length_ta_write
      split: prod.splits if_splits)

lemma unbroken_Suc:
  assumes "unbroken S t c0 = Inr c" "episode_body S t c = Inr (d, c')"
  shows "unbroken S (Suc t) c0 = Inr c'" "done_at S c0 t = d"
  using assms by (simp_all add: done_at_def)

lemma episode_loop_trace:
  "sampler_in_range S \<Longrightarrow> t \<le> max_steps \<Longrightarrow> unbroken S t c0 = Inr c \<Longrightarrow> arrays_filled t c \<Longrightarrow>
         \<forall>j<t. \<not> done_at S c0 j \<Longrightarrow>
         \<exists>c' n. episode_loop S max_steps t c = Inr c' \<and> arrays_filled n c' \<and> n \<le> max_steps \<and>
           (\<forall>k<max_steps. done_at S c0 k \<and> (\<forall>j<k. \<not> done_at S c0 j) \<longrightarrow> n = Suc k) \<and>
           ((\<forall>k<max_steps. \<not> done_at S c0 k) \<longrightarrow> n = max_steps)"
proof (induction S max_steps t c rule: episode_loop.induct)
  case (1 S max_steps t c)
  note ok = "1.prems"(1) and le = "1.prems"(2) and ub = "1.prems"(3)
    and fill = "1.prems"(4) and before = "1.prems"(5)
  show ?case
  proof (cases "t < max_steps")
    case False
    then have t: "t = max_steps" using le by simp
    have "episode_loop S max_steps t c = Inr c"
      using False by (subst episode_loop.simps) simp
    moreover have "\<forall>k<max_steps. \<not> (done_at S c0 k \<and> (\<forall>j<k. \<not> done_at S c0 j))"
      using before t by blast
    ultimately show ?thesis using fill t by blast
  next
    case True
    obtain d c1 where body: "episode_body S t c = Inr (d, c1)"
      using episode_body_ok [OF ok] by blast
    note step = unbroken_Suc [OF ub body]
    have filled: "arrays_filled (Suc t) c1"
      using body fill by (rule episode_body_filled)
    show ?thesis
    proof (cases d)
      case True
      have loop: "episode_loop S max_steps t c = Inr c1"
        using \<open>t < max_steps\<close> body True by (subst episode_loop.simps) simp
      have dt: "done_at S c0 t" using step(2) True by simp
      have first: "k = t" if "done_at S c0 k" "\<forall>j<k. \<not> done_at S c0 j" for k
        using that dt before by (meson linorder_neqE_nat)
      have "\<not> (\<forall>k<max_steps. \<not> done_at S c0 k)"
        using dt \<open>t < max_steps\<close> by blast
      then show ?thesis
        using loop filled \<open>t < max_steps\<close> first by (intro exI [of _ c1] exI [of _ "Suc t"]) auto
    next
      case False
      have loop: "episode_loop S max_steps t c = episode_loop S max_steps (Suc t) c1"
        using \<open>t < max_steps\<close> body False by (subst episode_loop.simps) simp
      have nd: "\<forall>j<Suc t. \<not> done_at S c0 j"
        using before step(2) False by (auto simp: less_Suc_eq)
      have "Suc t \<le> max_steps" using \<open>t < max_steps\<close> by simp
      from "1.IH" [OF \<open>t < max_steps\<close> body refl False ok this step(1) filled nd]
      show ?thesis unfolding loop .
    qed
  qed
qed

lemma sampler_in_range_counting: "sampler_in_range (counting_system d)"
  by (simp add: sampler_in_range_def counting_system_def numeral_2_eq_2 [symmetric])

lemma body_counting:
  "episode_body (counting_system d) t c =
     Inr (d \<le> Suc (cur_env c),
          \<lparr>cur_state = [real (cur_env c)], cur_env = Suc (cur_env c), cur_rng = Suc (cur_rng c),
           ta_action_probs = ta_write (ta_action_probs c) t (1/2),
           ta_values = ta_write (ta_values c) t 0,
           ta_rewards = ta_write (ta_rewards c) t 1\<rparr>)"
  by (simp add: episode_body_def counting_system_def softmax_def env_step_def
      env_step_convert_def np_int32_def Let_def nth_Cons')

lemma run_counting_2:
  "run_episode (counting_system 2) [0] 5 0 0 = Inr (([1/2, 1/2], [0, 0], [1, 1]), 2, 2)"
  by (simp add: run_episode_def initial_episode_state_def episode_loop.simps body_counting
      ta_write_def)

lemma run_counting_7:
  "run_episode (counting_system 7) [0] 3 0 0 =
     Inr (([1/2, 1/2, 1/2], [0, 0, 0], [1, 1, 1]), 3, 3)"
  by (simp add: run_episode_def initial_episode_state_def episode_loop.simps body_counting
      ta_write_def)

text \<open>
  Claim C6, as stated, fails when the steps are numbered from 0, as the loop index
  \<open>t\<close> numbers them. In the counting system that reports done from its second step on,
  the done flag first fires in the pass of index 1, below the cap 5, and the three
  sequences have 2 entries, not 1.
\<close>

theorem run_episode_step_index_counterexample:
  "\<not> done_at (counting_system 2) (initial_episode_state [0] 0 0) 0 \<and>
   done_at (counting_system 2) (initial_episode_state [0] 0 0) 1 \<and> (1::nat) < 5 \<and>
   run_episode (counting_system 2) [0] 5 0 0 = Inr (([1/2, 1/2], [0, 0], [1, 1]), 2, 2) \<and>
   length [1/2, 1/2 :: real] \<noteq> 1 \<and> length [0, 0 :: real] \<noteq> 1 \<and>
   length [1, 1 :: 32 word] \<noteq> 1"
proof -
  have "\<not> done_at (counting_system 2) (initial_episode_state [0] 0 0) 0"
      "done_at (counting_system 2) (initial_episode_state [0] 0 0) 1"
    by (simp_all add: done_at_def initial_episode_state_def body_counting)
  then show ?thesis using run_counting_2 by simp
qed

text \<open>
  Claim C6, amended. With a sampler that returns a class index, \<open>run_episode\<close> returns
  three sequences of one length, at most \<open>max_steps\<close>. When the done flag first fires in
  the pass at loop index \<open>k < max_steps\<close>, the length is \<open>k + 1\<close>: the step index at
  which the done flag first fires, plus one. When it fires in no pass below the cap, the
  length is \<open>max_steps\<close>.
\<close>

theorem run_episode_trace_length:
  assumes "sampler_in_range S"
  shows "\<exists>ps vs rs env' rng'.
           run_episode S initial_state max_steps env rng = Inr ((ps, vs, rs), env', rng') \<and>
           length ps = length rs \<and> length vs = length rs \<and> length rs \<le> max_steps \<and>
           (\<forall>k<max_steps.
              done_at S (initial_episode_state initial_state env rng) k \<and>
              (\<forall>j<k. \<not> done_at S (initial_episode_state initial_state env rng) j)
              \<longrightarrow> length rs = Suc k) \<and>
           ((\<forall>k<max_steps. \<not> done_at S (initial_episode_state initial_state env rng) k)
              \<longrightarrow> length rs = max_steps)"
proof -
  let ?c0 = "initial_episode_state initial_state env rng"
  have "arrays_filled 0 ?c0"
    by (simp add: arrays_filled_def initial_episode_state_def)
  with episode_loop_trace [OF assms, of 0 max_steps ?c0 ?c0]
  obtain c' n where loop: "episode_loop S max_steps 0 ?c0 = Inr c'"
    and filled: "arrays_filled n c'" and le: "n \<le> max_steps"
    and first: "\<forall>k<max_steps. done_at S ?c0 k \<and> (\<forall>j<k. \<not> done_at S ?c0 j) \<longrightarrow> n = Suc k"
    and never: "(\<forall>k<max_steps. \<not> done_at S ?c0 k) \<longrightarrow> n = max_steps"
    by auto
  have run: "run_episode S initial_state max_steps env rng =
      Inr ((ta_action_probs c', ta_values c', ta_rewards c'), cur_env c', cur_rng c')"
    by (simp add: run_episode_def loop)
  have len: "length (ta_action_probs c') = n" "length (ta_values c') = n"
      "length (ta_rewards c') = n"
    using filled by (simp_all add: arrays_filled_def)
  show ?thesis
    unfolding run using len le first never by simp
qed

theorem run_episode_trace_length_witness:
  "sampler_in_range (counting_system 2) \<and>
   \<not> done_at (counting_system 2) (initial_episode_state [0] 0 0) 0 \<and>
   done_at (counting_system 2) (initial_episode_state [0] 0 0) 1 \<and>
   run_episode (counting_system 2) [0] 5 0 0 = Inr (([1/2, 1/2], [0, 0], [1, 1]), 2, 2) \<and>
   length [1, 1 :: 32 word] = Suc 1 \<and>
   sampler_in_range (counting_system 7) \<and>
   \<not> done_at (counting_system 7) (initial_episode_state [0] 0 0) 0 \<and>
   \<not> done_at (counting_system 7) (initial_episode_state [0] 0 0) 1 \<and>
   \<not> done_at (counting_system 7) (initial_episode_state [0] 0 0) 2 \<and>
   run_episode (counting_system 7) [0] 3 0 0 =
     Inr (([1/2, 1/2, 1/2], [0, 0, 0], [1, 1, 1]), 3, 3) \<and>
   length [1, 1, 1 :: 32 word] = 3"
proof -
  have d2: "\<not> done_at (counting_system 2) (initial_episode_state [0] 0 0) 0"
      "done_at (counting_system 2) (initial_episode_state [0] 0 0) 1"
    by (simp_all add: done_at_def initial_episode_state_def body_counting)
  have d7: "\<not> done_at (counting_system 7) (initial_episode_state [0] 0 0) 0"
      "\<not> done_at (counting_system 7) (initial_episode_state [0] 0 0) 1"
      "\<not> done_at (counting_system 7) (initial_episode_state [0] 0 0) 2"
    by (simp_all add: done_at_def initial_episode_state_def body_counting numeral_2_eq_2)
  from run_episode_trace_length [OF sampler_in_range_counting, of 2 "[0]" 5 0 0] d2
  have l2: "length [1, 1 :: 32 word] = Suc 1"
    unfolding run_counting_2 by simp
  from run_episode_trace_length [OF sampler_in_range_counting, of 7 "[0]" 3 0 0] d7
  have l7: "length [1, 1, 1 :: 32 word] = 3"
    unfolding run_counting_7 by simp
  show ?thesis
    using sampler_in_range_counting d2 d7 run_counting_2 run_counting_7 l2 l7 by blast
qed

subsection \<open>Determinism of the episode runner\<close>

lemma body_runs_deterministic:
  assumes "seeded R" "body_runs R t c r1" "body_runs R t c r2"
  shows "r1 = r2"
  using assms(2)
proof cases
  case (pass ls1 v1 a1 g1 o1 e1 s1 w1 d1)
  from assms(3) show ?thesis
  proof cases
    case (pass ls2 v2 a2 g2 o2 e2 s2 w2 d2)
    have ls: "ls2 = ls1" "v2 = v1" using pass(2) \<open>network R (cur_state c) = (ls1, v1)\<close> by simp_all
    have "(a2, g2) = (a1, g1)"
      using assms(1) pass(3) \<open>may_draw R (cur_rng c) ls1 (a1, g1)\<close> ls unfolding seeded_def by blast
    then have a: "a2 = a1" "g2 = g1" by simp_all
    have "(o2, e2) = (o1, e1)"
      using assms(1) pass(5) \<open>may_step R (cur_env c) a1 (o1, e1)\<close> a unfolding seeded_def by blast
    then have o: "o2 = o1" "e2 = e1" by simp_all
    have "(s2, w2, d2) = (s1, w1, d1)"
      using pass(6) \<open>env_step_convert o1 = (s1, w1, d1)\<close> o by simp
    then show ?thesis
      using pass(1) \<open>r1 = _\<close> ls a o by simp
  qed
qed

lemma episode_runs_deterministic:
  assumes "seeded R" "episode_runs R max_steps t c c1" "episode_runs R max_steps t c c2"
  shows "c1 = c2"
  using assms(2,3)
proof (induction arbitrary: c2 rule: episode_runs.induct)
  case (cap t c)
  from cap(2) cap(1) show ?case by cases simp_all
next
  case (break t c c')
  from break(3) show ?case
  proof cases
    case cap
    then show ?thesis using break(1) by simp
  next
    case break
    then show ?thesis using body_runs_deterministic [OF assms(1) \<open>body_runs R t c (True, c')\<close>] by blast
  next
    case (continue d)
    then show ?thesis using body_runs_deterministic [OF assms(1) \<open>body_runs R t c (True, c')\<close>] by blast
  qed
next
  case (continue t c c' c'')
  from continue(5) show ?case
  proof cases
    case cap
    then show ?thesis using continue(1) by simp
  next
    case break
    then show ?thesis using body_runs_deterministic [OF assms(1) continue(2)] by blast
  next
    case (continue d)
    then have "d = c'" using body_runs_deterministic [OF assms(1) \<open>body_runs R t c (False, c')\<close>] by blast
    then show ?thesis using continue continue.IH by blast
  qed
qed

text \<open>
  Claim C9. When a seed controls the simulator and the sampling, two runs of
  \<open>run_episode\<close> from one initial observation, one network and one seeded state of the
  simulator and of the generator return the same action probabilities, value estimates
  and rewards.
\<close>

theorem run_episode_deterministic:
  assumes "seeded R"
    and "episode_trace R initial_state max_steps env rng trace1"
    and "episode_trace R initial_state max_steps env rng trace2"
  shows "trace1 = trace2"
  using assms(2,3) episode_runs_deterministic [OF assms(1)]
  unfolding episode_trace_def by blast

lemma episode_body_runs:
  assumes "episode_body S t c = Inr (d, c')"
  shows "body_runs (as_chance S) t c (d, c')"
proof -
  obtain ls v where m: "model S (cur_state c) = (ls, v)" by (cases "model S (cur_state c)")
  obtain a g where s: "categorical S (cur_rng c) ls = (a, g)" by (cases "categorical S (cur_rng c) ls")
  obtain out e where st: "gym_step S (cur_env c) a = (out, e)" by (cases "gym_step S (cur_env c) a")
  obtain s' w dn where cv: "env_step_convert out = (s', w, dn)" by (cases "env_step_convert out")
  have inr: "a < length (softmax ls)"
    using assms by (auto simp: episode_body_def m s Let_def split: if_splits)
  have res: "(d, c') = (dn \<noteq> 0,
        \<lparr>cur_state = s', cur_env = e, cur_rng = g,
         ta_action_probs = ta_write (ta_action_probs c) t (softmax ls ! a),
         ta_values = ta_write (ta_values c) t v,
         ta_rewards = ta_write (ta_rewards c) t w\<rparr>)"
    using assms inr by (simp add: episode_body_def m s st cv env_step_def Let_def)
  show ?thesis unfolding res
    by (rule body_runs.pass [where out = out]) (simp_all add: as_chance_def m s st cv inr)
qed

lemma episode_loop_runs:
  "episode_loop S max_steps t c = Inr c' \<Longrightarrow> episode_runs (as_chance S) max_steps t c c'"
proof (induction S max_steps t c rule: episode_loop.induct)
  case (1 S max_steps t c)
  show ?case
  proof (cases "t < max_steps")
    case False
    then have "c' = c" using "1.prems" by (subst (asm) episode_loop.simps) simp
    then show ?thesis using False by (simp add: episode_runs.cap)
  next
    case True
    from "1.prems" True obtain d c1 where body: "episode_body S t c = Inr (d, c1)"
      by (subst (asm) episode_loop.simps) (auto split: sum.splits)
    show ?thesis
    proof (cases d)
      case True
      then have "c' = c1" using "1.prems" \<open>t < max_steps\<close> body
        by (subst (asm) episode_loop.simps) simp
      then show ?thesis
        using episode_body_runs [OF body] True \<open>t < max_steps\<close> by (auto intro: episode_runs.break)
    next
      case False
      then have "episode_loop S max_steps (Suc t) c1 = Inr c'"
        using "1.prems" \<open>t < max_steps\<close> body by (subst (asm) episode_loop.simps) simp
      then have "episode_runs (as_chance S) max_steps (Suc t) c1 c'"
        using "1.IH" [OF \<open>t < max_steps\<close> body refl False] by simp
      then show ?thesis
        using episode_body_runs [OF body] False \<open>t < max_steps\<close>
        by (auto intro: episode_runs.continue)
    qed
  qed
qed

lemma run_episode_trace:
  assumes "run_episode S initial_state max_steps env rng = Inr (trace, env', rng')"
  shows "episode_trace (as_chance S) initial_state max_steps env rng trace"
  using assms episode_loop_runs [of S max_steps 0 "initial_episode_state initial_state env rng"]
  unfolding run_episode_def episode_trace_def by (auto split: sum.splits)

lemma seeded_as_chance: "seeded (as_chance S)"
  by (simp add: seeded_def as_chance_def)

theorem run_episode_deterministic_witness:
  "seeded (as_chance (counting_system 2)) \<and>
   episode_trace (as_chance (counting_system 2)) [0] 5 0 0 ([1/2, 1/2], [0, 0], [1, 1]) \<and>
   ([1/2, 1/2], [0, 0], [1, 1]) = ([1/2, 1/2 :: real], [0, 0 :: real], [1, 1 :: 32 word])"
proof -
  note tr = run_episode_trace [OF run_counting_2]
  show ?thesis
    using run_episode_deterministic [OF seeded_as_chance tr tr] seeded_as_chance tr by simp
qed

subsection \<open>The training step\<close>

lemma length_softmax: "length (softmax ls) = length ls"
  by (simp add: softmax_def)

lemma softmax_nth_pos: "a < length ls \<Longrightarrow> 0 < softmax ls ! a"
proof -
  assume a: "a < length ls"
  have "exp (ls ! a) \<le> sum_list (map exp ls)"
    using a by (intro member_le_sum_list) auto
  then have "0 < sum_list (map exp ls)"
    using exp_gt_zero [of "ls ! a"] by linarith
  then show ?thesis using a by (simp add: softmax_def)
qed

lemma episode_body_positive:
  assumes "episode_body S t c = Inr (d, c')" "arrays_filled t c" "probs_positive c"
  shows "probs_positive c'"
  using assms
  by (auto simp: episode_body_def arrays_filled_def probs_positive_def Let_def ta_write_def
      softmax_nth_pos length_softmax split: prod.splits if_splits)

lemma episode_loop_positive:
  "episode_loop S max_steps t c = Inr c' \<Longrightarrow> arrays_filled t c \<Longrightarrow> probs_positive c \<Longrightarrow>
   probs_positive c'"
proof (induction S max_steps t c rule: episode_loop.induct)
  case (1 S max_steps t c)
  show ?case
  proof (cases "t < max_steps")
    case False
    then have "c' = c" using "1.prems"(1) by (subst (asm) episode_loop.simps) simp
    then show ?thesis using "1.prems"(3) by simp
  next
    case True
    from "1.prems"(1) True obtain d c1 where body: "episode_body S t c = Inr (d, c1)"
      by (subst (asm) episode_loop.simps) (auto split: sum.splits)
    have pos: "probs_positive c1" using body "1.prems"(2,3) by (rule episode_body_positive)
    have fill: "arrays_filled (Suc t) c1" using body "1.prems"(2) by (rule episode_body_filled)
    show ?thesis
    proof (cases d)
      case True
      then have "c' = c1" using "1.prems"(1) \<open>t < max_steps\<close> body
        by (subst (asm) episode_loop.simps) simp
      then show ?thesis using pos by simp
    next
      case False
      then have "episode_loop S max_steps (Suc t) c1 = Inr c'"
        using "1.prems"(1) \<open>t < max_steps\<close> body by (subst (asm) episode_loop.simps) simp
      then show ?thesis
        using "1.IH" [OF \<open>t < max_steps\<close> body refl False _ fill pos] by simp
    qed
  qed
qed

lemma run_episode_returns:
  assumes "sampler_in_range S"
  shows "\<exists>ps vs rs env' rng'.
           run_episode S initial_state max_steps env rng = Inr ((ps, vs, rs), env', rng') \<and>
           length ps = length vs \<and> length rs = length vs \<and> (\<forall>p\<in>set ps. 0 < p)"
proof -
  let ?c0 = "initial_episode_state initial_state env rng"
  have f0: "arrays_filled 0 ?c0"
    by (simp add: arrays_filled_def initial_episode_state_def)
  have p0: "probs_positive ?c0"
    by (simp add: probs_positive_def initial_episode_state_def)
  from episode_loop_trace [OF assms, of 0 max_steps ?c0 ?c0] f0
  obtain c' n where loop: "episode_loop S max_steps 0 ?c0 = Inr c'"
    and filled: "arrays_filled n c'"
    by auto
  have pos: "probs_positive c'" using loop f0 p0 by (rule episode_loop_positive)
  have run: "run_episode S initial_state max_steps env rng =
      Inr ((ta_action_probs c', ta_values c', ta_rewards c'), cur_env c', cur_rng c')"
    by (simp add: run_episode_def loop)
  show ?thesis
    unfolding run using filled pos by (simp add: arrays_filled_def probs_positive_def)
qed

text \<open>
  Claim C10. Every call of \<open>train_step\<close> (with a sampler that returns a class index)
  computes its loss against the standardised returns: \<open>get_expected_return\<close> is called
  without the flag, whose default is true, so the returns handed to \<open>compute_loss\<close> are
  \<open>(G - mean G) / (std G + eps)\<close>, computed in float32, for the raw discounted returns
  \<open>G\<close> of the episode.
\<close>

theorem train_step_standardized_returns:
  assumes "sampler_in_range (S\<lparr>model := forward m\<rparr>)"
  shows "\<exists>ps vs rs env' rng' loss.
     run_episode (S\<lparr>model := forward m\<rparr>) initial_state max_steps env rng =
       Inr ((ps, vs, rs), env', rng') \<and>
     (let G = get_expected_return rs gamma False;
          Z = map (\<lambda>g. fdiv (fsub g (reduce_mean32 G)) (fadd (reduce_std32 G) eps)) G
      in compute_loss (expand_dims ps) (expand_dims vs) (expand_dims Z) = Inr loss \<and>
         train_step forward update S initial_state m gamma max_steps env rng =
           Inr ((sum_list rs,
                 update m \<lparr>tape_action_probs = expand_dims ps, tape_values = expand_dims vs,
                           tape_returns = expand_dims Z, tape_loss = loss\<rparr>), env', rng'))"
proof -
  from run_episode_returns [OF assms, of initial_state max_steps env rng]
  obtain ps vs rs env' rng' where
    run: "run_episode (S\<lparr>model := forward m\<rparr>) initial_state max_steps env rng =
            Inr ((ps, vs, rs), env', rng')"
    and len: "length ps = length vs" "length rs = length vs" and pos: "\<forall>p\<in>set ps. 0 < p"
    by blast
  let ?G = "get_expected_return rs gamma False"
  let ?Z = "map (\<lambda>g. fdiv (fsub g (reduce_mean32 ?G)) (fadd (reduce_std32 ?G) eps)) ?G"
  have Z: "get_expected_return rs gamma standardize_default = ?Z"
    unfolding standardize_default_def by (rule get_expected_return_True)
  have "length ?Z = length vs" using len by (simp add: returns_raw_length)
  from compute_loss_columns [OF len(1) this pos]
  obtain loss where loss: "compute_loss (expand_dims ps) (expand_dims vs) (expand_dims ?Z) = Inr loss"
    by blast
  have "train_step forward update S initial_state m gamma max_steps env rng =
           Inr ((sum_list rs,
                 update m \<lparr>tape_action_probs = expand_dims ps, tape_values = expand_dims vs,
                           tape_returns = expand_dims ?Z, tape_loss = loss\<rparr>), env', rng')"
    by (simp add: train_step_def run Z loss Let_def)
  then show ?thesis using run loss unfolding Let_def by blast
qed

theorem train_step_standardized_returns_witness:
  "sampler_in_range ((counting_system 2)\<lparr>model := (\<lambda>s. ([0, 0], 0))\<rparr>) \<and>
   train_step (\<lambda>m s. ([0, 0], 0)) (\<lambda>m tp. Suc m) (counting_system 2) [0] 0 (1/2) 5 0 0 =
     Inr ((2, 1), 2, 2)"
proof -
  have S: "(counting_system 2)\<lparr>model := (\<lambda>s. ([0, 0], 0))\<rparr> = counting_system 2"
    by (simp add: counting_system_def)
  have ok: "sampler_in_range ((counting_system 2)\<lparr>model := (\<lambda>s. ([0, 0], 0))\<rparr>)"
    unfolding S by (rule sampler_in_range_counting)
  from train_step_standardized_returns [where S = "counting_system 2" and forward = "\<lambda>m s. ([0, 0], 0)" and m = 0
      and initial_state = "[0]" and max_steps = 5 and env = 0 and rng = 0 and gamma = "1/2"
      and update = "\<lambda>m tp. Suc m", OF ok]
  have "train_step (\<lambda>m s. ([0, 0], 0)) (\<lambda>m tp. Suc m) (counting_system 2) [0] 0 (1/2) 5 0 0 =
     Inr ((2, 1), 2, 2)"
    unfolding S run_counting_2 Let_def by auto
  with ok show ?thesis by simp
qed

subsection \<open>The reward window and the training loop\<close>

lemma deque_append_bounded: "length d \<le> n \<Longrightarrow> length (deque_append n d x) \<le> n"
  by (simp add: deque_append_def Let_def)

lemma deque_append_full: "length d = n \<Longrightarrow> 0 < n \<Longrightarrow> deque_append n d x = tl d @ [x]"
  by (cases d) (simp_all add: deque_append_def)

lemma deque_append_room: "length d < n \<Longrightarrow> deque_append n d x = d @ [x]"
  by (simp add: deque_append_def)

lemma deque_append_recent:
  "deque_append n (drop (length xs - n) xs) x = drop (Suc (length xs) - n) (xs @ [x])"
proof (cases "length xs < n")
  case True
  then show ?thesis by (simp add: deque_append_def)
next
  case False
  then have le: "n \<le> length xs" by simp
  have "Suc (length xs) - n = Suc (length xs - n)" using le by simp
  moreover have "tl (drop (length xs - n) xs @ [x]) = drop (Suc (length xs - n)) (xs @ [x])"
  proof (cases "n = 0")
    case True
    then show ?thesis by simp
  next
    case False
    then have "drop (length xs - n) xs \<noteq> []" using le by simp
    then show ?thesis using le by (simp add: drop_Suc drop_tl)
  qed
  ultimately show ?thesis using le by (simp add: deque_append_def)
qed

lemma foldl_deque_append:
  "foldl (deque_append n) [] xs = drop (length xs - n) xs"
proof (induction xs rule: rev_induct)
  case Nil
  then show ?case by simp
next
  case (snoc x xs)
  then show ?case using deque_append_recent [of n xs x] by simp
qed

lemma recent_rewards_Suc:
  "deque_append n (recent_rewards episode w n k) (reward_of episode w k) =
     recent_rewards episode w n (Suc k)"
  using deque_append_recent [of n "map (reward_of episode w) [0..<k]" "reward_of episode w k"]
  by (simp add: recent_rewards_def)

lemma statistics_mean_recent:
  "0 < n \<Longrightarrow> \<exists>mean. statistics_mean (recent_rewards episode w n (Suc k)) = Inr mean"
  by (auto simp: statistics_mean_def recent_rewards_def)

lemma training_loop_run:
  "0 < n \<Longrightarrow> i \<le> max_eps \<Longrightarrow> loop_state_at episode w n i s \<Longrightarrow>
   \<forall>j<i. \<not> break_test episode w n threshold j \<Longrightarrow>
   \<exists>b k s'. training_loop episode n max_eps threshold i s = Inr (b, k, s') \<and>
     k \<le> max_eps \<and> loop_state_at episode w n k s' \<and>
     (b \<longleftrightarrow> (\<exists>j<max_eps. break_test episode w n threshold j)) \<and>
     (\<forall>j<max_eps. break_test episode w n threshold j \<and>
        (\<forall>l<j. \<not> break_test episode w n threshold l) \<longrightarrow> k = Suc j) \<and>
     ((\<forall>j<max_eps. \<not> break_test episode w n threshold j) \<longrightarrow> k = max_eps)"
proof (induction episode n max_eps threshold i s rule: training_loop.induct)
  case (1 episode n max_eps threshold i s)
  note pos = "1.prems"(1) and le = "1.prems"(2) and at = "1.prems"(3) and before = "1.prems"(4)
  show ?case
  proof (cases "i < max_eps")
    case False
    then have i: "i = max_eps" using le by simp
    have "training_loop episode n max_eps threshold i s = Inr (False, i, s)"
      using False by (subst training_loop.simps) simp
    then show ?thesis using at before i by auto
  next
    case True
    obtain r w' where ep: "episode (world s) = (r, w')" by (cases "episode (world s)")
    have r: "r = reward_of episode w i" and w': "w' = world_after episode w (Suc i)"
      using ep at by (simp_all add: loop_state_at_def reward_of_def)
    let ?d = "deque_append n (episodes_reward s) r"
    have d: "?d = recent_rewards episode w n (Suc i)"
      using at r recent_rewards_Suc [of n episode w i] by (simp add: loop_state_at_def)
    obtain mean where mean: "statistics_mean ?d = Inr mean"
      using statistics_mean_recent [OF pos, of episode w i] d by auto
    let ?s' = "\<lparr>world = w', episodes_reward = ?d, running_reward = mean\<rparr>"
    have at': "loop_state_at episode w n (Suc i) ?s'"
      using d w' mean by (simp add: loop_state_at_def)
    have test: "break_test episode w n threshold i \<longleftrightarrow> (mean > real_of_int threshold \<and> i \<ge> n)"
      using mean d by (simp add: break_test_def)
    have pass: "training_loop episode n max_eps threshold i s =
        (if mean > real_of_int threshold \<and> i \<ge> n then Inr (True, Suc i, ?s')
         else training_loop episode n max_eps threshold (Suc i) ?s')"
      using \<open>i < max_eps\<close> by (subst training_loop.simps) (simp add: ep mean Let_def)
    show ?thesis
    proof (cases "mean > real_of_int threshold \<and> i \<ge> n")
      case True
      have loop: "training_loop episode n max_eps threshold i s = Inr (True, Suc i, ?s')"
        unfolding pass using True by (rule if_P)
      have bt: "break_test episode w n threshold i" using test True by simp
      have first: "j = i" if "break_test episode w n threshold j"
          "\<forall>l<j. \<not> break_test episode w n threshold l" for j
        using that bt before by (meson linorder_neqE_nat)
      have ex: "\<exists>j<max_eps. break_test episode w n threshold j"
        using bt \<open>i < max_eps\<close> by blast
      have fst: "\<forall>j<max_eps. break_test episode w n threshold j \<and>
          (\<forall>l<j. \<not> break_test episode w n threshold l) \<longrightarrow> Suc i = Suc j"
        using first by blast
      have "Suc i \<le> max_eps" using \<open>i < max_eps\<close> by simp
      then show ?thesis
        unfolding loop using at' ex fst by auto
    next
      case False
      have loop: "training_loop episode n max_eps threshold i s =
          training_loop episode n max_eps threshold (Suc i) ?s'"
        unfolding pass using False by (rule if_not_P)
      have nb: "\<forall>j<Suc i. \<not> break_test episode w n threshold j"
        using before test False by (simp add: less_Suc_eq)
      have "Suc i \<le> max_eps" using \<open>i < max_eps\<close> by simp
      from "1.IH" [OF \<open>i < max_eps\<close> ep [symmetric] refl mean refl False pos this at' nb]
      show ?thesis unfolding loop .
    qed
  qed
qed

lemma loop_state_at_initial: "loop_state_at episode w n 0 (initial_loop_state w)"
  by (simp add: loop_state_at_def initial_loop_state_def recent_rewards_def)




lemma training_loop_from_start:
  assumes "0 < n"
  shows "\<exists>b k s'. training_loop episode n max_eps threshold 0 (initial_loop_state w) = Inr (b, k, s') \<and>
     k \<le> max_eps \<and> loop_state_at episode w n k s' \<and>
     (b \<longleftrightarrow> (\<exists>j<max_eps. break_test episode w n threshold j)) \<and>
     (\<forall>j<max_eps. break_test episode w n threshold j \<and>
        (\<forall>l<j. \<not> break_test episode w n threshold l) \<longrightarrow> k = Suc j) \<and>
     ((\<forall>j<max_eps. \<not> break_test episode w n threshold j) \<longrightarrow> k = max_eps)"
  by (rule training_loop_run [OF assms _ loop_state_at_initial]) simp_all


text \<open>
  Claim C7. The reward window never holds more than its capacity \<open>n\<close> (in the notebook
  \<open>min_episodes_criterion\<close>): an append keeps the bound, an append to a full window
  drops the oldest entry and puts the new one last, and after any sequence of appends the
  window holds the most recent \<open>n\<close> entries in their order. When the training loop is
  left, the window is the most recent \<open>n\<close> of the episode rewards of its passes.
\<close>

theorem reward_window_fifo:
  "(length d \<le> n \<longrightarrow> length (deque_append n d x) \<le> n) \<and>
   (length d = n \<and> 0 < n \<longrightarrow> deque_append n d x = tl d @ [x]) \<and>
   foldl (deque_append n) [] xs = drop (length xs - n) xs \<and>
   (0 < n \<longrightarrow>
      (\<exists>b k s'. training_loop episode n max_eps threshold 0 (initial_loop_state w) = Inr (b, k, s') \<and>
         length (episodes_reward s') \<le> n \<and>
         episodes_reward s' = drop (k - n) (map (reward_of episode w) [0..<k])))"
proof (intro conjI impI)
  show "length (deque_append n d x) \<le> n" if "length d \<le> n"
    using that by (rule deque_append_bounded)
  show "deque_append n d x = tl d @ [x]" if "length d = n \<and> 0 < n"
    using that by (simp add: deque_append_full)
  show "foldl (deque_append n) [] xs = drop (length xs - n) xs"
    by (rule foldl_deque_append)
  show "\<exists>b k s'. training_loop episode n max_eps threshold 0 (initial_loop_state w) = Inr (b, k, s') \<and>
         length (episodes_reward s') \<le> n \<and>
         episodes_reward s' = drop (k - n) (map (reward_of episode w) [0..<k])" if "0 < n"
  proof -
    from training_loop_from_start [OF that, of episode max_eps threshold w]
    obtain b k s' where
      loop: "training_loop episode n max_eps threshold 0 (initial_loop_state w) = Inr (b, k, s')"
      and at: "loop_state_at episode w n k s'"
      by blast
    have w: "episodes_reward s' = drop (k - n) (map (reward_of episode w) [0..<k])"
      using at by (simp add: loop_state_at_def recent_rewards_def)
    then have "length (episodes_reward s') \<le> n" by simp
    with loop w show ?thesis by blast
  qed
qed

theorem reward_window_fifo_witness:
  "length [5, 7 :: int] \<le> 2 \<and> length (deque_append 2 [5, 7 :: int] 9) \<le> 2 \<and>
   deque_append 2 [5, 7 :: int] 9 = [7, 9] \<and>
   foldl (deque_append 2) [] [1, 2, 3 :: int] = [2, 3] \<and>
   training_loop counting_episode 2 3 195 0 (initial_loop_state 0) =
     Inr (False, 3, \<lparr>world = 3, episodes_reward = [1, 2], running_reward = 3/2\<rparr>) \<and>
   [1, 2] = drop (3 - 2) (map (reward_of counting_episode 0) [0..<3])"
proof -
  note c = reward_window_fifo [of "[5, 7 :: int]" 2 9 "[1, 2, 3 :: int]" counting_episode 3 195 0]
  have loop: "training_loop counting_episode 2 3 195 0 (initial_loop_state 0) =
     Inr (False, 3, \<lparr>world = 3, episodes_reward = [1, 2], running_reward = 3/2\<rparr>)"
    by (simp add: training_loop.simps initial_loop_state_def counting_episode_def deque_append_def
      statistics_mean_def numeral_3_eq_3 numeral_2_eq_2)
  have "length (deque_append 2 [5, 7 :: int] 9) \<le> 2" using c by simp
  moreover have "deque_append 2 [5, 7 :: int] 9 = [7, 9]" using c by simp
  moreover have "foldl (deque_append 2) [] [1, 2, 3 :: int] = [2, 3]" using c by simp
  moreover have "[1, 2] = drop (3 - 2) (map (reward_of counting_episode 0) [0..<3])"
    using c unfolding loop by simp
  ultimately show ?thesis using loop by simp
qed




end
